theory Spec2Isabelle
  imports Main "HOL-Library.Word" "HOL-Library.AList"
begin

section \<open>The platform the library runs on\<close>

text \<open>
  tiny-struct is written against three ECMAScript objects: \<open>ArrayBuffer\<close>/\<open>Uint8Array\<close>
  (bytes), \<open>DataView\<close> (typed reads and writes with a range check) and
  \<open>TextEncoder\<close>/\<open>TextDecoder\<close> (UTF-8). They are not code of the repository; this
  section states them as ECMA-262 and the WHATWG Encoding standard define them, as far as
  the library calls them.

  Numbers are modelled as \<open>int\<close>: the integer-valued doubles. Fractions, infinities and
  doubles beyond 2^53 are outside the model; \<open>NaN\<close> only arises from \<open>undefined\<close> and is
  handled where it arises.
\<close>

type_synonym byte = "8 word"

datatype error = RangeError | TypeError | SyntaxError | Unmodelled

text \<open>
  A \<open>DataView\<close> is a window of \<open>byteLength\<close> bytes starting at \<open>byteOffset\<close> of an
  underlying \<open>ArrayBuffer\<close>, whose contents are the list \<open>buffer\<close>.
\<close>

record DataView =
  buffer :: "byte list"
  byteOffset :: nat
  byteLength :: nat

text \<open>What \<open>from\<close> accepts: an \<open>ArrayBuffer\<close>, or a \<open>Uint8Array\<close> given by its underlying
  buffer, its \<open>byteOffset\<close> and its \<open>byteLength\<close>.\<close>

datatype BufferSource = ArrayBuffer "byte list" | Uint8Array "byte list" nat nat

text \<open>\<open>new DataView(buffer, byteOffset, byteLength)\<close>: a RangeError when the window does
  not fit the buffer.\<close>

definition new_DataView :: "byte list \<Rightarrow> nat \<Rightarrow> nat \<Rightarrow> error + DataView" where
  "new_DataView b off len =
     (if length b < off + len then Inl RangeError
      else Inr \<lparr>buffer = b, byteOffset = off, byteLength = len\<rparr>)"

text \<open>Little-endian bytes of a number and back (NumericToRawBytes, RawBytesToNumeric).\<close>

fun nat_to_le :: "nat \<Rightarrow> nat \<Rightarrow> byte list" where
  "nat_to_le 0 v = []"
| "nat_to_le (Suc n) v = of_nat (v mod 256) # nat_to_le n (v div 256)"

fun le_to_nat :: "byte list \<Rightarrow> nat" where
  "le_to_nat [] = 0"
| "le_to_nat (b # bs) = unat b + 256 * le_to_nat bs"

text \<open>\<open>ToUint8\<close>, \<open>ToUint16\<close>, \<open>ToUint32\<close>, \<open>ToBigUint64\<close>: the value modulo 2^(8w). The signed
  conversions store the same bytes (two's complement).\<close>

definition ToUintN :: "nat \<Rightarrow> int \<Rightarrow> nat" where
  "ToUintN w v = nat (v mod 2 ^ (8 * w))"

text \<open>Reading w bytes as a signed integer.\<close>

definition to_signed :: "nat \<Rightarrow> nat \<Rightarrow> int" where
  "to_signed w n = (if 2 ^ (8 * w - 1) \<le> n then int n - 2 ^ (8 * w) else int n)"

text \<open>Storing the bytes \<open>ys\<close> at position \<open>i\<close> of \<open>xs\<close>.\<close>

definition overwrite :: "'a list \<Rightarrow> nat \<Rightarrow> 'a list \<Rightarrow> 'a list" where
  "overwrite xs i ys = take i xs @ ys @ drop (i + length ys) xs"

text \<open>
  \<open>GetViewValue\<close> and \<open>SetViewValue\<close> of ECMA-262: the index must not be negative
  (\<open>ToIndex\<close>) and the element must end inside the view, otherwise RangeError. The raw
  bytes are exchanged in little-endian order; a big-endian access reverses them.
\<close>

definition GetViewValue :: "DataView \<Rightarrow> int \<Rightarrow> bool \<Rightarrow> nat \<Rightarrow> error + byte list" where
  "GetViewValue view requestIndex isLittleEndian elementSize =
     (if requestIndex < 0 \<or> int (byteLength view) < requestIndex + int elementSize
      then Inl RangeError
      else let raw = take elementSize (drop (byteOffset view + nat requestIndex) (buffer view))
           in Inr (if isLittleEndian then raw else rev raw))"

definition SetViewValue :: "DataView \<Rightarrow> int \<Rightarrow> bool \<Rightarrow> byte list \<Rightarrow> error + DataView" where
  "SetViewValue view requestIndex isLittleEndian raw =
     (if requestIndex < 0 \<or> int (byteLength view) < requestIndex + int (length raw)
      then Inl RangeError
      else Inr (view\<lparr>buffer := overwrite (buffer view) (byteOffset view + nat requestIndex)
                        (if isLittleEndian then raw else rev raw)\<rparr>))"

definition getUint8 :: "DataView \<Rightarrow> int \<Rightarrow> error + byte" where
  "getUint8 view i =
     (case GetViewValue view i True 1 of Inl e \<Rightarrow> Inl e | Inr raw \<Rightarrow> Inr (hd raw))"

definition setUint8 :: "DataView \<Rightarrow> int \<Rightarrow> byte \<Rightarrow> error + DataView" where
  "setUint8 view i b = SetViewValue view i True [b]"

subsection \<open>TextEncoder and TextDecoder\<close>

text \<open>
  An ECMAScript string is a sequence of 16-bit code units. \<open>TextEncoder.encode\<close> first
  turns it into scalar values (a surrogate pair is one code point, a lone surrogate becomes
  U+FFFD) and then writes UTF-8.
\<close>

type_synonym jsstring = "16 word list"

definition is_lead :: "nat \<Rightarrow> bool" where
  "is_lead c = (0xD800 \<le> c \<and> c \<le> 0xDBFF)"

definition is_trail :: "nat \<Rightarrow> bool" where
  "is_trail c = (0xDC00 \<le> c \<and> c \<le> 0xDFFF)"

fun scalar_values :: "nat list \<Rightarrow> nat list" where
  "scalar_values [] = []"
| "scalar_values [c] = [if is_lead c \<or> is_trail c then 0xFFFD else c]"
| "scalar_values (c # d # cs) =
     (if is_lead c \<and> is_trail d
      then (0x10000 + (c - 0xD800) * 0x400 + (d - 0xDC00)) # scalar_values cs
      else (if is_lead c \<or> is_trail c then 0xFFFD else c) # scalar_values (d # cs))"

definition utf8_bytes :: "nat \<Rightarrow> nat list" where
  "utf8_bytes c =
     (if c < 0x80 then [c]
      else if c < 0x800 then [0xC0 + c div 64, 0x80 + c mod 64]
      else if c < 0x10000 then [0xE0 + c div 4096, 0x80 + (c div 64) mod 64, 0x80 + c mod 64]
      else [0xF0 + c div 262144, 0x80 + (c div 4096) mod 64, 0x80 + (c div 64) mod 64,
            0x80 + c mod 64])"

definition TextEncoder_encode :: "jsstring \<Rightarrow> byte list" where
  "TextEncoder_encode s = map of_nat (concat (map utf8_bytes (scalar_values (map unat s))))"

text \<open>
  \<open>new TextDecoder().decode\<close>: UTF-8, not fatal, the byte order mark not ignored. The
  decoder is the state machine of the Encoding standard: a malformed sequence yields
  U+FFFD and the offending byte is read again as the start of a new sequence; a leading
  EF BB BF is dropped.
\<close>

record utf8_state =
  code_point :: nat
  bytes_seen :: nat
  bytes_needed :: nat
  lower_boundary :: nat
  upper_boundary :: nat

definition utf8_init :: utf8_state where
  "utf8_init = \<lparr>code_point = 0, bytes_seen = 0, bytes_needed = 0,
                lower_boundary = 0x80, upper_boundary = 0xBF\<rparr>"

definition utf8_lead :: "nat \<Rightarrow> nat list \<times> utf8_state" where
  "utf8_lead b =
     (if b \<le> 0x7F then ([b], utf8_init)
      else if 0xC2 \<le> b \<and> b \<le> 0xDF
        then ([], utf8_init\<lparr>bytes_needed := 1, code_point := b mod 32\<rparr>)
      else if 0xE0 \<le> b \<and> b \<le> 0xEF
        then ([], utf8_init\<lparr>lower_boundary := (if b = 0xE0 then 0xA0 else 0x80),
                             upper_boundary := (if b = 0xED then 0x9F else 0xBF),
                             bytes_needed := 2, code_point := b mod 16\<rparr>)
      else if 0xF0 \<le> b \<and> b \<le> 0xF4
        then ([], utf8_init\<lparr>lower_boundary := (if b = 0xF0 then 0x90 else 0x80),
                             upper_boundary := (if b = 0xF4 then 0x8F else 0xBF),
                             bytes_needed := 3, code_point := b mod 8\<rparr>)
      else ([0xFFFD], utf8_init))"

definition utf8_handler :: "utf8_state \<Rightarrow> nat \<Rightarrow> nat list \<times> utf8_state" where
  "utf8_handler st b =
     (if bytes_needed st = 0 then utf8_lead b
      else if b < lower_boundary st \<or> upper_boundary st < b
        then (case utf8_lead b of (out, st') \<Rightarrow> (0xFFFD # out, st'))
      else let c = code_point st * 64 + b mod 64
           in if bytes_seen st + 1 \<noteq> bytes_needed st
              then ([], st\<lparr>lower_boundary := 0x80, upper_boundary := 0xBF,
                          code_point := c, bytes_seen := bytes_seen st + 1\<rparr>)
              else ([c], utf8_init))"

fun utf8_run :: "utf8_state \<Rightarrow> nat list \<Rightarrow> nat list" where
  "utf8_run st [] = (if bytes_needed st \<noteq> 0 then [0xFFFD] else [])"
| "utf8_run st (b # bs) = (case utf8_handler st b of (out, st') \<Rightarrow> out @ utf8_run st' bs)"

definition utf16_units :: "nat \<Rightarrow> nat list" where
  "utf16_units c =
     (if c < 0x10000 then [c]
      else [0xD800 + (c - 0x10000) div 1024, 0xDC00 + (c - 0x10000) mod 1024])"

definition TextDecoder_decode :: "byte list \<Rightarrow> jsstring" where
  "TextDecoder_decode bs =
     (let ns = map unat bs;
          ns' = (if take 3 ns = [0xEF, 0xBB, 0xBF] then drop 3 ns else ns)
      in map of_nat (concat (map utf16_units (utf8_run utf8_init ns'))))"


section \<open>Values and the heap\<close>

text \<open>
  A field value is a number, a BigInt, a string or a \<open>Uint8Array\<close>. A \<open>Uint8Array\<close> is an
  object: the record holds a reference to it and two records may hold the same one. The
  heap is the list of all \<open>Uint8Array\<close> objects allocated so far, a reference is an index
  into it, and \<open>new Uint8Array\<close> appends. Temporaries that never leave a function
  (the scratch array of \<open>cstring\<close>, the view that \<open>string\<close> decodes) stay values.

  Reading a key that a record does not have gives one of two things. A plain object
  inherits from \<open>Object.prototype\<close>, so a key that \<open>Object.prototype\<close> defines gives the
  object found there: \<open>Inherited k\<close> is the value of \<open>Object.prototype[k]\<close>, a built-in
  function, or \<open>Object.prototype\<close> itself for \<open>__proto__\<close>. Any other missing key gives
  \<open>Undefined\<close>. \<open>Object.prototype\<close> is taken as the standard defines it, with no property
  added or removed.

  The TypeScript signature \<open>write(buffer, offset, value: T, littleEndian)\<close> excludes a value
  of another field's type. The model ends such a call with \<open>Unmodelled\<close> (ECMAScript
  would coerce the value through \<open>ToNumber\<close> or \<open>toString\<close>); nothing below is stated
  about that outcome. \<open>Undefined\<close> and \<open>Inherited\<close> are the two values that reach a
  writer although no caller passed them, and every writer says what it does with them.
\<close>

type_synonym addr = nat
type_synonym heap = "byte list list"

datatype jsval =
    Undefined | Number int | BigInt int | Str jsstring | U8Array addr | Inherited string

definition new_Uint8Array :: "heap \<Rightarrow> byte list \<Rightarrow> addr \<times> heap" where
  "new_Uint8Array h bs = (length h, h @ [bs])"

text \<open>\<open>a[i] = v\<close> on a \<open>Uint8Array\<close>; an index out of range is ignored.\<close>

definition array_store :: "heap \<Rightarrow> addr \<Rightarrow> nat \<Rightarrow> byte \<Rightarrow> heap" where
  "array_store h a i v = h[a := (h ! a)[i := v]]"

section \<open>field-types.ts\<close>

record FieldType =
  size_bytes :: int
  parse :: "heap \<Rightarrow> DataView \<Rightarrow> int \<Rightarrow> bool \<Rightarrow> error + (jsval \<times> heap)"
  write_f :: "heap \<Rightarrow> DataView \<Rightarrow> int \<Rightarrow> jsval \<Rightarrow> bool \<Rightarrow> error + DataView"

text \<open>The loop \<open>for (i of is) buffer.setUint8(offset + i, f(i))\<close>, which every byte-wise
  writer of the file runs.\<close>

fun for_setUint8 :: "DataView \<Rightarrow> int \<Rightarrow> (nat \<Rightarrow> byte) \<Rightarrow> nat list \<Rightarrow> error + DataView" where
  "for_setUint8 buf offset f [] = Inr buf"
| "for_setUint8 buf offset f (i # is) =
     (case setUint8 buf (offset + int i) (f i) of
        Inl e \<Rightarrow> Inl e
      | Inr buf' \<Rightarrow> for_setUint8 buf' offset f is)"

subsection \<open>bytes(length)\<close>

fun bytes_parse_loop :: "DataView \<Rightarrow> int \<Rightarrow> nat list \<Rightarrow> byte list \<Rightarrow> error + byte list" where
  "bytes_parse_loop buf offset [] result = Inr result"
| "bytes_parse_loop buf offset (i # is) result =
     (case getUint8 buf (offset + int i) of
        Inl e \<Rightarrow> Inl e
      | Inr b \<Rightarrow> bytes_parse_loop buf offset is (result[i := b]))"

definition bytes_parse :: "int \<Rightarrow> heap \<Rightarrow> DataView \<Rightarrow> int \<Rightarrow> bool \<Rightarrow> error + (jsval \<times> heap)" where
  "bytes_parse len h buf offset le =
     (if len < 0 then Inl RangeError
      else case bytes_parse_loop buf offset [0..<nat len] (replicate (nat len) 0) of
             Inl e \<Rightarrow> Inl e
           | Inr result \<Rightarrow> (case new_Uint8Array h result of (a, h') \<Rightarrow> Inr (U8Array a, h')))"

text \<open>\<open>value[i] || 0\<close>: the element, or 0 past the end of the array. On \<open>undefined\<close> the read
  \<open>value[0]\<close> is a TypeError; an object inherited from \<open>Object.prototype\<close> has no property
  \<open>i\<close>, so every byte is 0; with \<open>length \<le> 0\<close> the value is never looked at.\<close>

definition bytes_write :: "int \<Rightarrow> heap \<Rightarrow> DataView \<Rightarrow> int \<Rightarrow> jsval \<Rightarrow> bool \<Rightarrow> error + DataView" where
  "bytes_write len h buf offset v le =
     (if len \<le> 0 then Inr buf
      else case v of
             U8Array a \<Rightarrow>
               (if a < length h
                then for_setUint8 buf offset
                       (\<lambda>i. if i < length (h ! a) then (h ! a) ! i else 0) [0..<nat len]
                else Inl Unmodelled)
           | Undefined \<Rightarrow> Inl TypeError
           | Inherited k \<Rightarrow> for_setUint8 buf offset (\<lambda>i. 0) [0..<nat len]
           | _ \<Rightarrow> Inl Unmodelled)"

definition bytes :: "int \<Rightarrow> FieldType" where
  "bytes len = \<lparr>size_bytes = len, parse = bytes_parse len, write_f = bytes_write len\<rparr>"

subsection \<open>The integers\<close>

text \<open>
  \<open>getUintN\<close>/\<open>getIntN\<close> and \<open>setUintN\<close>/\<open>setIntN\<close> for N = 8 w. On \<open>undefined\<close>,
  \<open>ToNumber\<close> gives NaN and the conversion to an integer gives 0; so it does on an object
  inherited from \<open>Object.prototype\<close>, whose primitive value is a text that is not a numeral
  (\<open>function ...\<close>, \<open>[object Object]\<close>). The 64-bit accessors take a BigInt:
  \<open>ToBigInt(undefined)\<close> is a TypeError and \<open>ToBigInt\<close> of such a text is a SyntaxError,
  raised after the index is found non-negative and before the range check.
\<close>

definition get_number :: "nat \<Rightarrow> bool \<Rightarrow> DataView \<Rightarrow> int \<Rightarrow> bool \<Rightarrow> error + int" where
  "get_number w is_signed buf offset le =
     (case GetViewValue buf offset le w of
        Inl e \<Rightarrow> Inl e
      | Inr raw \<Rightarrow> Inr (if is_signed then to_signed w (le_to_nat raw) else int (le_to_nat raw)))"

definition number_parse ::
    "nat \<Rightarrow> bool \<Rightarrow> heap \<Rightarrow> DataView \<Rightarrow> int \<Rightarrow> bool \<Rightarrow> error + (jsval \<times> heap)" where
  "number_parse w is_signed h buf offset le =
     (case get_number w is_signed buf offset le of
        Inl e \<Rightarrow> Inl e
      | Inr n \<Rightarrow> Inr (Number n, h))"

definition number_write ::
    "nat \<Rightarrow> heap \<Rightarrow> DataView \<Rightarrow> int \<Rightarrow> jsval \<Rightarrow> bool \<Rightarrow> error + DataView" where
  "number_write w h buf offset v le =
     (case v of
        Number n \<Rightarrow> SetViewValue buf offset le (nat_to_le w (ToUintN w n))
      | Undefined \<Rightarrow> SetViewValue buf offset le (nat_to_le w 0)
      | Inherited k \<Rightarrow> SetViewValue buf offset le (nat_to_le w 0)
      | _ \<Rightarrow> Inl Unmodelled)"

definition bigint_parse ::
    "bool \<Rightarrow> heap \<Rightarrow> DataView \<Rightarrow> int \<Rightarrow> bool \<Rightarrow> error + (jsval \<times> heap)" where
  "bigint_parse is_signed h buf offset le =
     (case get_number 8 is_signed buf offset le of
        Inl e \<Rightarrow> Inl e
      | Inr n \<Rightarrow> Inr (BigInt n, h))"

definition bigint_write :: "heap \<Rightarrow> DataView \<Rightarrow> int \<Rightarrow> jsval \<Rightarrow> bool \<Rightarrow> error + DataView" where
  "bigint_write h buf offset v le =
     (case v of
        BigInt n \<Rightarrow> SetViewValue buf offset le (nat_to_le 8 (ToUintN 8 n))
      | Undefined \<Rightarrow> (if offset < 0 then Inl RangeError else Inl TypeError)
      | Inherited k \<Rightarrow> (if offset < 0 then Inl RangeError else Inl SyntaxError)
      | _ \<Rightarrow> Inl Unmodelled)"

text \<open>The one-byte accessors take no endianness argument: the flag handed to \<open>parse\<close> and
  \<open>write\<close> is dropped.\<close>

definition uint8 :: FieldType where
  "uint8 = \<lparr>size_bytes = 1,
            parse = (\<lambda>h buf offset le. number_parse 1 False h buf offset True),
            write_f = (\<lambda>h buf offset v le. number_write 1 h buf offset v True)\<rparr>"

definition uint16 :: FieldType where
  "uint16 = \<lparr>size_bytes = 2, parse = number_parse 2 False, write_f = number_write 2\<rparr>"

definition uint32 :: FieldType where
  "uint32 = \<lparr>size_bytes = 4, parse = number_parse 4 False, write_f = number_write 4\<rparr>"

definition uint64 :: FieldType where
  "uint64 = \<lparr>size_bytes = 8, parse = bigint_parse False, write_f = bigint_write\<rparr>"

definition int8 :: FieldType where
  "int8 = \<lparr>size_bytes = 1,
           parse = (\<lambda>h buf offset le. number_parse 1 True h buf offset True),
           write_f = (\<lambda>h buf offset v le. number_write 1 h buf offset v True)\<rparr>"

definition int16 :: FieldType where
  "int16 = \<lparr>size_bytes = 2, parse = number_parse 2 True, write_f = number_write 2\<rparr>"

definition int32 :: FieldType where
  "int32 = \<lparr>size_bytes = 4, parse = number_parse 4 True, write_f = number_write 4\<rparr>"

definition int64 :: FieldType where
  "int64 = \<lparr>size_bytes = 8, parse = bigint_parse True, write_f = bigint_write\<rparr>"

subsection \<open>cstring(maxLength)\<close>

text \<open>
  The reader copies bytes into a scratch array until a zero byte or \<open>maxLength\<close>, and
  decodes \<open>bytes.subarray(0, length)\<close>. \<open>new Uint8Array(maxLength)\<close> is a RangeError for a
  negative \<open>maxLength\<close>.
\<close>

fun cstring_parse_loop ::
    "DataView \<Rightarrow> int \<Rightarrow> nat list \<Rightarrow> byte list \<Rightarrow> nat \<Rightarrow> error + (byte list \<times> nat)" where
  "cstring_parse_loop buf offset [] bs len = Inr (bs, len)"
| "cstring_parse_loop buf offset (i # is) bs len =
     (case getUint8 buf (offset + int i) of
        Inl e \<Rightarrow> Inl e
      | Inr b \<Rightarrow> if b = 0 then Inr (bs, len)
                 else cstring_parse_loop buf offset is (bs[i := b]) (len + 1))"

definition cstring_parse ::
    "int \<Rightarrow> heap \<Rightarrow> DataView \<Rightarrow> int \<Rightarrow> bool \<Rightarrow> error + (jsval \<times> heap)" where
  "cstring_parse maxLength h buf offset le =
     (if maxLength < 0 then Inl RangeError
      else case cstring_parse_loop buf offset [0..<nat maxLength]
                  (replicate (nat maxLength) 0) 0 of
             Inl e \<Rightarrow> Inl e
           | Inr (bs, len) \<Rightarrow> Inr (Str (TextDecoder_decode (take len bs)), h))"

text \<open>
  \<open>TextEncoder.encode(undefined)\<close> is the encoding of the empty string (the argument's
  default). An object inherited from \<open>Object.prototype\<close> would be encoded as its text,
  which for a built-in function the standard leaves to the implementation: the model
  stops there. The terminator is written at \<open>offset + length\<close> with
  \<open>length = min(encoded.length, maxLength - 1)\<close>, whatever its sign.
\<close>

definition encode_arg :: "jsval \<Rightarrow> byte list option" where
  "encode_arg v =
     (case v of
        Str s \<Rightarrow> Some (TextEncoder_encode s)
      | Undefined \<Rightarrow> Some []
      | _ \<Rightarrow> None)"

definition cstring_write ::
    "int \<Rightarrow> heap \<Rightarrow> DataView \<Rightarrow> int \<Rightarrow> jsval \<Rightarrow> bool \<Rightarrow> error + DataView" where
  "cstring_write maxLength h buf offset v le =
     (case encode_arg v of
        None \<Rightarrow> Inl Unmodelled
      | Some encoded \<Rightarrow>
          (let len = min (int (length encoded)) (maxLength - 1)
           in case for_setUint8 buf offset (\<lambda>i. encoded ! i) [0..<nat len] of
                Inl e \<Rightarrow> Inl e
              | Inr buf' \<Rightarrow> setUint8 buf' (offset + len) 0))"

definition cstring :: "int \<Rightarrow> FieldType" where
  "cstring maxLength =
     \<lparr>size_bytes = maxLength, parse = cstring_parse maxLength, write_f = cstring_write maxLength\<rparr>"

subsection \<open>string(length)\<close>

text \<open>
  The reader is \<open>new Uint8Array(buffer.buffer, offset, length)\<close>: a view of the
  \<^emph>\<open>underlying\<close> ArrayBuffer of the DataView, at \<open>offset\<close> counted from the start of that
  buffer. The constructor raises RangeError for a negative offset or length and when the
  view would end after the buffer; the DataView's own \<open>byteOffset\<close> and \<open>byteLength\<close> are
  not consulted.
\<close>

definition string_parse ::
    "int \<Rightarrow> heap \<Rightarrow> DataView \<Rightarrow> int \<Rightarrow> bool \<Rightarrow> error + (jsval \<times> heap)" where
  "string_parse len h buf offset le =
     (if offset < 0 \<or> len < 0 \<or> int (length (buffer buf)) < offset + len then Inl RangeError
      else Inr (Str (TextDecoder_decode (take (nat len) (drop (nat offset) (buffer buf)))), h))"

definition string_write ::
    "int \<Rightarrow> heap \<Rightarrow> DataView \<Rightarrow> int \<Rightarrow> jsval \<Rightarrow> bool \<Rightarrow> error + DataView" where
  "string_write len h buf offset v le =
     (case encode_arg v of
        None \<Rightarrow> Inl Unmodelled
      | Some encoded \<Rightarrow>
          (let bytesToWrite = min (int (length encoded)) len
           in case for_setUint8 buf offset (\<lambda>i. encoded ! i) [0..<nat bytesToWrite] of
                Inl e \<Rightarrow> Inl e
              | Inr buf' \<Rightarrow>
                  for_setUint8 buf' offset (\<lambda>i. 0) [nat bytesToWrite..<nat len]))"

definition string_ft :: "int \<Rightarrow> FieldType" where
  "string_ft len = \<lparr>size_bytes = len, parse = string_parse len, write_f = string_write len\<rparr>"

subsection \<open>custom(size, parse, write)\<close>

definition custom ::
    "int \<Rightarrow> (heap \<Rightarrow> DataView \<Rightarrow> int \<Rightarrow> bool \<Rightarrow> error + (jsval \<times> heap))
         \<Rightarrow> (heap \<Rightarrow> DataView \<Rightarrow> int \<Rightarrow> jsval \<Rightarrow> bool \<Rightarrow> error + DataView) \<Rightarrow> FieldType" where
  "custom sz p w = \<lparr>size_bytes = sz, parse = p, write_f = w\<rparr>"

text \<open>The built-in field types, by name.\<close>

datatype builtin =
    Bytes int | Uint8 | Uint16 | Uint32 | Uint64 | Int8 | Int16 | Int32 | Int64
  | CString int | String int

fun field_type :: "builtin \<Rightarrow> FieldType" where
  "field_type (Bytes n) = bytes n"
| "field_type Uint8 = uint8"
| "field_type Uint16 = uint16"
| "field_type Uint32 = uint32"
| "field_type Uint64 = uint64"
| "field_type Int8 = int8"
| "field_type Int16 = int16"
| "field_type Int32 = int32"
| "field_type Int64 = int64"
| "field_type (CString n) = cstring n"
| "field_type (String n) = string_ft n"


section \<open>struct-core.ts\<close>

text \<open>
  An object is modelled by the list \<open>Object.entries\<close> gives for it: its own enumerable
  properties, each name with its value, in the order of enumeration. That order is the
  order in which the properties were created, except that names that are array indices
  (\<open>"0"\<close>, \<open>"1"\<close>, ...) come first, in ascending order; so it is the order in which an
  object literal declares its fields only when no field name is an array index. An object
  has every key once, so the names of such a list are distinct; the theorems below say so
  where they need it. The objects of the library (\<open>fieldOffsets\<close>, the record \<open>from\<close>
  builds, the record handed to \<open>to\<close>) are plain objects: they inherit from
  \<open>Object.prototype\<close>.

  A field map is the list \<open>Object.entries(fields)\<close>. The struct definition is the object
  \<open>struct\<close> returns together with the three variables its methods close over: \<open>totalSize\<close>
  (also its \<open>size\<close>), \<open>fieldOffsets\<close> and \<open>littleEndian\<close>; \<open>fieldOffsets\<close> is the map of its own
  properties.
\<close>

record StructDef =
  name :: string
  size_total :: int
  field_list :: "(string \<times> FieldType) list"
  fieldOffsets :: "string \<rightharpoonup> int"
  littleEndian :: bool

text \<open>
  The order of enumeration (\<open>OrdinaryOwnPropertyKeys\<close>). An array index is the decimal
  numeral, without leading zeros, of an integer from 0 to 2^32 - 2. \<open>enumeration_of ps\<close> is
  the object whose properties were created in the order \<open>ps\<close> (names distinct), as the list
  \<open>Object.entries\<close> gives for it.
\<close>

definition index_value :: "string \<Rightarrow> nat" where
  "index_value s = foldl (\<lambda>n c. 10 * n + (of_char c - 48)) 0 s"

definition is_array_index :: "string \<Rightarrow> bool" where
  "is_array_index s =
     (s \<noteq> [] \<and> list_all (\<lambda>c. c \<in> set ''0123456789'') s \<and> (s = ''0'' \<or> hd s \<noteq> CHR ''0'') \<and>
      index_value s < 2 ^ 32 - 1)"

definition enumeration_of :: "(string \<times> 'a) list \<Rightarrow> (string \<times> 'a) list" where
  "enumeration_of ps =
     sort_key (\<lambda>(n, v). index_value n) (filter (\<lambda>(n, v). is_array_index n) ps) @
     filter (\<lambda>(n, v). \<not> is_array_index n) ps"

text \<open>
  The names \<open>Object.prototype\<close> defines (ECMA-262, with the legacy accessor methods and
  \<open>__proto__\<close>, which every engine provides). All but one are
  writable data properties: assigning to such a name on a plain object creates a property
  of the object itself, as for any other name. \<open>__proto__\<close> is an accessor: the assignment
  \<open>o["__proto__"] = v\<close> calls its setter, which does nothing when \<open>v\<close> is a number, and
  creates no property.
\<close>

definition Object_prototype_names :: "string list" where
  "Object_prototype_names =
     [''constructor'', ''hasOwnProperty'', ''isPrototypeOf'', ''propertyIsEnumerable'',
      ''toLocaleString'', ''toString'', ''valueOf'', ''__proto__'', ''__defineGetter__'',
      ''__defineSetter__'', ''__lookupGetter__'', ''__lookupSetter__'']"

text \<open>\<open>fieldOffsets[fieldName] = totalSize\<close>.\<close>

definition set_offset :: "(string \<rightharpoonup> int) \<Rightarrow> string \<Rightarrow> int \<Rightarrow> (string \<rightharpoonup> int)" where
  "set_offset offs fieldName totalSize =
     (if fieldName = ''__proto__'' then offs else offs(fieldName \<mapsto> totalSize))"

text \<open>The loop that computes \<open>fieldOffsets\<close> and \<open>totalSize\<close>.\<close>

fun layout ::
    "(string \<times> FieldType) list \<Rightarrow> int \<Rightarrow> (string \<rightharpoonup> int) \<Rightarrow> int \<times> (string \<rightharpoonup> int)" where
  "layout [] totalSize offs = (totalSize, offs)"
| "layout ((fieldName, fieldType) # rest) totalSize offs =
     layout rest (totalSize + size_bytes fieldType) (set_offset offs fieldName totalSize)"

text \<open>\<open>struct(name, fields, options)\<close>. The function has no \<open>throw\<close> and calls nothing that
  raises: the result type has an error side only so that "construction fails" can be
  stated.\<close>

definition struct :: "string \<Rightarrow> (string \<times> FieldType) list \<Rightarrow> bool option \<Rightarrow> error + StructDef" where
  "struct nm flds options =
     (case layout flds 0 Map.empty of
        (totalSize, offs) \<Rightarrow>
          Inr \<lparr>name = nm, size_total = totalSize, field_list = flds, fieldOffsets = offs,
               littleEndian = (case options of None \<Rightarrow> False | Some b \<Rightarrow> b)\<rparr>)"

text \<open>
  A record instance: its own enumerable properties, in order, and the struct definition
  that the hidden properties \<open>$struct\<close>, \<open>$toBuffer\<close> and \<open>$clone\<close> refer to.
  \<open>Object.defineProperties\<close> turns a property of one of these three names into the hidden
  method, so a field of such a name does not survive in the result.
\<close>

record Instance =
  props :: "(string \<times> jsval) list"
  dollar_struct :: StructDef

definition hidden_names :: "string set" where
  "hidden_names = {''$struct'', ''$toBuffer'', ''$clone''}"

text \<open>\<open>values[fieldName]\<close> on a plain object: the property of the object itself if it has
  one of that name, else what \<open>Object.prototype\<close> holds under that name, else \<open>undefined\<close>.\<close>

definition get_prop :: "(string \<times> jsval) list \<Rightarrow> string \<Rightarrow> jsval" where
  "get_prop values k =
     (case map_of values k of
        Some v \<Rightarrow> v
      | None \<Rightarrow> if k \<in> set Object_prototype_names then Inherited k else Undefined)"

text \<open>
  \<open>fieldOffsets[fieldName]\<close>, as \<open>from\<close> and \<open>to\<close> read it. For every field name but one
  it is the number \<open>struct\<close> stored. For \<open>__proto__\<close> nothing was stored and the read gives
  \<open>Object.prototype\<close>; the field's \<open>parse\<close> or \<open>write\<close> is then called with an offset that
  is not a number, which its signature excludes (the built-in readers and writers would
  coerce it, each in its own way; a custom one is code the model does not see), and \<open>result["__proto__"] = value\<close> would call the
  inherited setter. The model gives no offset for that name, and the loops stop with
  \<open>Unmodelled\<close>: nothing below is stated about structs with a field of that name, apart
  from their construction.
\<close>

definition get_offset :: "(string \<rightharpoonup> int) \<Rightarrow> string \<Rightarrow> int option" where
  "get_offset offs fieldName = (if fieldName = ''__proto__'' then None else offs fieldName)"

text \<open>The loop of \<open>from\<close>. \<open>result[fieldName] = value\<close> creates the property, or replaces
  its value if the record has it already. The fields come in the order of enumeration,
  which is also the order in which \<open>result\<close> enumerates the properties created in that
  order: a new property goes to the end of the list.\<close>

fun from_loop ::
    "(string \<rightharpoonup> int) \<Rightarrow> bool \<Rightarrow> DataView \<Rightarrow> int \<Rightarrow> (string \<times> FieldType) list \<Rightarrow> heap
       \<Rightarrow> (string \<times> jsval) list \<Rightarrow> error + ((string \<times> jsval) list \<times> heap)" where
  "from_loop offs le dataView offset [] h result = Inr (result, h)"
| "from_loop offs le dataView offset ((fieldName, fieldType) # rest) h result =
     (case get_offset offs fieldName of
        None \<Rightarrow> Inl Unmodelled
      | Some fieldOffset \<Rightarrow>
          (case parse fieldType h dataView (offset + fieldOffset) le of
             Inl e \<Rightarrow> Inl e
           | Inr (v, h') \<Rightarrow>
               from_loop offs le dataView offset rest h' (AList.update fieldName v result)))"

definition struct_from ::
    "StructDef \<Rightarrow> heap \<Rightarrow> BufferSource \<Rightarrow> int \<Rightarrow> error + (Instance \<times> heap)" where
  "struct_from S h source offset =
     (case (case source of
              ArrayBuffer b \<Rightarrow> new_DataView b 0 (length b)
            | Uint8Array b off len \<Rightarrow> new_DataView b off len) of
        Inl e \<Rightarrow> Inl e
      | Inr dataView \<Rightarrow>
          (case from_loop (fieldOffsets S) (littleEndian S) dataView offset (field_list S) h [] of
             Inl e \<Rightarrow> Inl e
           | Inr (result, h') \<Rightarrow>
               Inr (\<lparr>props = filter (\<lambda>(k, v). k \<notin> hidden_names) result, dollar_struct = S\<rparr>,
                    h')))"

text \<open>The loop of \<open>to\<close>, on the fresh zero-filled buffer. \<open>new ArrayBuffer(totalSize)\<close> is a
  RangeError for a negative size.\<close>

fun to_loop ::
    "(string \<rightharpoonup> int) \<Rightarrow> bool \<Rightarrow> (string \<times> jsval) list \<Rightarrow> heap \<Rightarrow> (string \<times> FieldType) list
       \<Rightarrow> DataView \<Rightarrow> error + DataView" where
  "to_loop offs le values h [] dataView = Inr dataView"
| "to_loop offs le values h ((fieldName, fieldType) # rest) dataView =
     (case get_offset offs fieldName of
        None \<Rightarrow> Inl Unmodelled
      | Some fieldOffset \<Rightarrow>
          (case write_f fieldType h dataView fieldOffset (get_prop values fieldName) le of
             Inl e \<Rightarrow> Inl e
           | Inr dataView' \<Rightarrow> to_loop offs le values h rest dataView'))"

definition struct_to :: "StructDef \<Rightarrow> heap \<Rightarrow> (string \<times> jsval) list \<Rightarrow> error + byte list" where
  "struct_to S h values =
     (if size_total S < 0 then Inl RangeError
      else case to_loop (fieldOffsets S) (littleEndian S) values h (field_list S)
                  \<lparr>buffer = replicate (nat (size_total S)) 0, byteOffset = 0,
                   byteLength = nat (size_total S)\<rparr> of
             Inl e \<Rightarrow> Inl e
           | Inr dataView \<Rightarrow> Inr (buffer dataView))"

text \<open>
  \<open>$clone\<close>: the spread \<open>{ ...this }\<close> copies the enumerable properties, references
  included; the loop then replaces every \<open>Uint8Array\<close> by \<open>new Uint8Array(value)\<close>, a
  fresh array with the same elements; the hidden properties are those of \<open>this\<close>.
\<close>

fun clone_loop ::
    "(string \<times> jsval) list \<Rightarrow> heap \<Rightarrow> (string \<times> jsval) list \<Rightarrow> (string \<times> jsval) list \<times> heap" where
  "clone_loop [] h clone = (clone, h)"
| "clone_loop ((key, v) # rest) h clone =
     (case v of
        U8Array a \<Rightarrow>
          (case new_Uint8Array h (h ! a) of
             (a', h') \<Rightarrow> clone_loop rest h' (AList.update key (U8Array a') clone))
      | _ \<Rightarrow> clone_loop rest h clone)"

definition dollar_clone :: "Instance \<Rightarrow> heap \<Rightarrow> Instance \<times> heap" where
  "dollar_clone this h =
     (case clone_loop (props this) h (props this) of
        (clone, h') \<Rightarrow> (\<lparr>props = clone, dollar_struct = dollar_struct this\<rparr>, h'))"


section \<open>Notions the properties are stated with\<close>

text \<open>The sizes of a field list in order, and the sum of the sizes before position \<open>i\<close>.\<close>

definition sizes :: "(string \<times> FieldType) list \<Rightarrow> int list" where
  "sizes flds = map (\<lambda>(k, ft). size_bytes ft) flds"

definition offset_at :: "(string \<times> FieldType) list \<Rightarrow> nat \<Rightarrow> int" where
  "offset_at flds i = sum_list (take i (sizes flds))"

text \<open>A field list of built-in types.\<close>

definition builtin_fields :: "(string \<times> builtin) list \<Rightarrow> (string \<times> FieldType) list" where
  "builtin_fields ks = map (\<lambda>(n, k). (n, field_type k)) ks"

text \<open>A view that lies inside its buffer, as every \<open>DataView\<close> does.\<close>

definition wf_view :: "DataView \<Rightarrow> bool" where
  "wf_view dv = (byteOffset dv + byteLength dv \<le> length (buffer dv))"

definition view_of :: "BufferSource \<Rightarrow> DataView" where
  "view_of source =
     (case source of
        ArrayBuffer b \<Rightarrow> \<lparr>buffer = b, byteOffset = 0, byteLength = length b\<rparr>
      | Uint8Array b off len \<Rightarrow> \<lparr>buffer = b, byteOffset = off, byteLength = len\<rparr>)"

definition wf_source :: "BufferSource \<Rightarrow> bool" where
  "wf_source src = wf_view (view_of src)"

text \<open>The \<open>n\<close> bytes at position \<open>p\<close> of a buffer.\<close>

definition segment :: "'a list \<Rightarrow> nat \<Rightarrow> nat \<Rightarrow> 'a list" where
  "segment xs p n = take n (drop p xs)"

text \<open>What a value is, apart from where it lives: a \<open>Uint8Array\<close> is its elements.\<close>

datatype content =
    CUndefined | CNumber int | CBigInt int | CStr jsstring | CBytes "byte list"
  | CInherited string

definition content_of :: "heap \<Rightarrow> jsval \<Rightarrow> content" where
  "content_of h v =
     (case v of
        Undefined \<Rightarrow> CUndefined
      | Number n \<Rightarrow> CNumber n
      | BigInt n \<Rightarrow> CBigInt n
      | Str s \<Rightarrow> CStr s
      | U8Array a \<Rightarrow> CBytes (h ! a)
      | Inherited k \<Rightarrow> CInherited k)"

text \<open>A value of the field's TypeScript type (\<open>conforms\<close>), and a value the field's writer
  takes without raising (\<open>accepts\<close>): a conforming one, or \<open>undefined\<close> or an object
  inherited from \<open>Object.prototype\<close> where the writer coerces it.\<close>

fun conforms :: "heap \<Rightarrow> builtin \<Rightarrow> jsval \<Rightarrow> bool" where
  "conforms h (Bytes n) (U8Array a) = (a < length h)"
| "conforms h (Bytes n) _ = False"
| "conforms h Uint64 (BigInt v) = True"
| "conforms h Uint64 _ = False"
| "conforms h Int64 (BigInt v) = True"
| "conforms h Int64 _ = False"
| "conforms h (CString n) (Str s) = True"
| "conforms h (CString n) _ = False"
| "conforms h (String n) (Str s) = True"
| "conforms h (String n) _ = False"
| "conforms h _ (Number v) = True"
| "conforms h _ _ = False"

fun coerces_undefined :: "builtin \<Rightarrow> bool" where
  "coerces_undefined (Bytes n) = False"
| "coerces_undefined Uint64 = False"
| "coerces_undefined Int64 = False"
| "coerces_undefined _ = True"

fun coerces_inherited :: "builtin \<Rightarrow> bool" where
  "coerces_inherited Uint64 = False"
| "coerces_inherited Int64 = False"
| "coerces_inherited (CString n) = False"
| "coerces_inherited (String n) = False"
| "coerces_inherited _ = True"

fun is_inherited :: "jsval \<Rightarrow> bool" where
  "is_inherited (Inherited k) = True"
| "is_inherited _ = False"

definition accepts :: "heap \<Rightarrow> builtin \<Rightarrow> jsval \<Rightarrow> bool" where
  "accepts h k v =
     (if v = Undefined then coerces_undefined k
      else if is_inherited v then coerces_inherited k
      else conforms h k v)"

text \<open>The bytes a writer stores for a value, in the order they lie in the buffer
  (\<open>written\<close>), and the whole slot of the field when the buffer was zero before
  (\<open>slot_image\<close>). Only \<open>cstring\<close> stores fewer bytes than its size.\<close>

definition endian :: "bool \<Rightarrow> byte list \<Rightarrow> byte list" where
  "endian le bs = (if le then bs else rev bs)"

definition number_of :: "content \<Rightarrow> int" where
  "number_of c = (case c of CNumber v \<Rightarrow> v | CBigInt v \<Rightarrow> v | _ \<Rightarrow> 0)"

definition encoded_of :: "content \<Rightarrow> byte list" where
  "encoded_of c = (case c of CStr s \<Rightarrow> TextEncoder_encode s | _ \<Rightarrow> [])"

definition elements_of :: "content \<Rightarrow> byte list" where
  "elements_of c = (case c of CBytes bs \<Rightarrow> bs | _ \<Rightarrow> [])"

fun written :: "builtin \<Rightarrow> bool \<Rightarrow> content \<Rightarrow> byte list" where
  "written (Bytes n) le c =
     take (nat n) (elements_of c) @ replicate (nat n - length (elements_of c)) 0"
| "written Uint8 le c = nat_to_le 1 (ToUintN 1 (number_of c))"
| "written Int8 le c = nat_to_le 1 (ToUintN 1 (number_of c))"
| "written Uint16 le c = endian le (nat_to_le 2 (ToUintN 2 (number_of c)))"
| "written Int16 le c = endian le (nat_to_le 2 (ToUintN 2 (number_of c)))"
| "written Uint32 le c = endian le (nat_to_le 4 (ToUintN 4 (number_of c)))"
| "written Int32 le c = endian le (nat_to_le 4 (ToUintN 4 (number_of c)))"
| "written Uint64 le c = endian le (nat_to_le 8 (ToUintN 8 (number_of c)))"
| "written Int64 le c = endian le (nat_to_le 8 (ToUintN 8 (number_of c)))"
| "written (CString n) le c = take (nat (n - 1)) (encoded_of c) @ [0]"
| "written (String n) le c =
     take (nat n) (encoded_of c) @ replicate (nat n - length (encoded_of c)) 0"

definition slot_image :: "builtin \<Rightarrow> bool \<Rightarrow> content \<Rightarrow> byte list" where
  "slot_image k le c =
     written k le c @ replicate (nat (size_bytes (field_type k)) - length (written k le c)) 0"

text \<open>What a reader makes of the bytes of its slot.\<close>

fun decode_value :: "builtin \<Rightarrow> bool \<Rightarrow> byte list \<Rightarrow> content" where
  "decode_value (Bytes n) le bs = CBytes bs"
| "decode_value Uint8 le bs = CNumber (int (le_to_nat bs))"
| "decode_value Int8 le bs = CNumber (to_signed 1 (le_to_nat bs))"
| "decode_value Uint16 le bs = CNumber (int (le_to_nat (endian le bs)))"
| "decode_value Int16 le bs = CNumber (to_signed 2 (le_to_nat (endian le bs)))"
| "decode_value Uint32 le bs = CNumber (int (le_to_nat (endian le bs)))"
| "decode_value Int32 le bs = CNumber (to_signed 4 (le_to_nat (endian le bs)))"
| "decode_value Uint64 le bs = CBigInt (int (le_to_nat (endian le bs)))"
| "decode_value Int64 le bs = CBigInt (to_signed 8 (le_to_nat (endian le bs)))"
| "decode_value (CString n) le bs = CStr (TextDecoder_decode (takeWhile (\<lambda>b. b \<noteq> 0) bs))"
| "decode_value (String n) le bs = CStr (TextDecoder_decode bs)"

text \<open>Where in the underlying buffer a reader starts counting its offset: every reader
  goes through the \<open>DataView\<close>, except \<open>string\<close>, which counts from the start of the
  underlying buffer.\<close>

fun read_base :: "builtin \<Rightarrow> DataView \<Rightarrow> nat" where
  "read_base (String n) dv = 0"
| "read_base k dv = byteOffset dv"

text \<open>The values a field stores without loss: a byte array of the declared length, an
  integer in the range of its width, a fixed text that fills the field exactly, a
  null-terminated text that fits before the terminator and has no zero byte; a text must
  also survive the platform's UTF-8 encoder and decoder (no lone surrogate, no leading
  byte order mark).\<close>

fun lossless :: "builtin \<Rightarrow> content \<Rightarrow> bool" where
  "lossless (Bytes n) (CBytes bs) = (int (length bs) = n)"
| "lossless Uint8 (CNumber v) = (0 \<le> v \<and> v < 2 ^ 8)"
| "lossless Int8 (CNumber v) = (- (2 ^ 7) \<le> v \<and> v < 2 ^ 7)"
| "lossless Uint16 (CNumber v) = (0 \<le> v \<and> v < 2 ^ 16)"
| "lossless Int16 (CNumber v) = (- (2 ^ 15) \<le> v \<and> v < 2 ^ 15)"
| "lossless Uint32 (CNumber v) = (0 \<le> v \<and> v < 2 ^ 32)"
| "lossless Int32 (CNumber v) = (- (2 ^ 31) \<le> v \<and> v < 2 ^ 31)"
| "lossless Uint64 (CBigInt v) = (0 \<le> v \<and> v < 2 ^ 64)"
| "lossless Int64 (CBigInt v) = (- (2 ^ 63) \<le> v \<and> v < 2 ^ 63)"
| "lossless (CString n) (CStr s) =
     (int (length (TextEncoder_encode s)) \<le> n - 1 \<and> 0 \<notin> set (TextEncoder_encode s) \<and>
      TextDecoder_decode (TextEncoder_encode s) = s)"
| "lossless (String n) (CStr s) =
     (int (length (TextEncoder_encode s)) = n \<and> TextDecoder_decode (TextEncoder_encode s) = s)"
| "lossless _ _ = False"


text \<open>The value and the heap a reader returns for the bytes of its slot: only \<open>bytes\<close>
  allocates.\<close>

definition parsed :: "builtin \<Rightarrow> bool \<Rightarrow> heap \<Rightarrow> byte list \<Rightarrow> jsval \<times> heap" where
  "parsed k le h bs =
     (case decode_value k le bs of
        CBytes xs \<Rightarrow> (U8Array (length h), h @ [xs])
      | CNumber n \<Rightarrow> (Number n, h)
      | CBigInt n \<Rightarrow> (BigInt n, h)
      | CStr s \<Rightarrow> (Str s, h)
      | CUndefined \<Rightarrow> (Undefined, h)
      | CInherited k \<Rightarrow> (Inherited k, h))"

text \<open>The record that reading every field at its place gives: the fields in order, the
  running position \<open>pos\<close> advancing by the size of each.\<close>

fun parse_all ::
    "bool \<Rightarrow> DataView \<Rightarrow> int \<Rightarrow> (string \<times> builtin) list \<Rightarrow> int \<Rightarrow> heap
       \<Rightarrow> (string \<times> jsval) list \<times> heap" where
  "parse_all le dv offset [] pos h = ([], h)"
| "parse_all le dv offset ((n, k) # rest) pos h =
     (case parsed k le h (segment (buffer dv) (read_base k dv + nat (offset + pos))
                            (nat (size_bytes (field_type k)))) of
        (v, h') \<Rightarrow>
          (case parse_all le dv offset rest (pos + size_bytes (field_type k)) h' of
             (vs, h'') \<Rightarrow> ((n, v) # vs, h'')))"


text \<open>The integer types of one, two and four bytes, their width and whether they are
  signed.\<close>

fun small_int :: "builtin \<Rightarrow> (nat \<times> bool) option" where
  "small_int Uint8 = Some (1, False)"
| "small_int Uint16 = Some (2, False)"
| "small_int Uint32 = Some (4, False)"
| "small_int Int8 = Some (1, True)"
| "small_int Int16 = Some (2, True)"
| "small_int Int32 = Some (4, True)"
| "small_int _ = None"

text \<open>The buffer that laying the images of a record's values side by side gives.\<close>

definition record_image ::
    "bool \<Rightarrow> heap \<Rightarrow> (string \<times> jsval) list \<Rightarrow> (string \<times> builtin) list \<Rightarrow> byte list" where
  "record_image le h values ks =
     concat (map (\<lambda>(n, k). slot_image k le (content_of h (get_prop values n))) ks)"

text \<open>The struct of the repository's first test (test/struct.test.ts): \<open>magic: bytes(4)\<close>,
  \<open>version: uint16()\<close>, \<open>flags: uint8()\<close>, \<open>count: uint32()\<close>.\<close>

definition Header_kinds :: "(string \<times> builtin) list" where
  "Header_kinds =
     [(''magic'', Bytes 4), (''version'', Uint16), (''flags'', Uint8), (''count'', Uint32)]"

definition Header :: StructDef where
  "Header = projr (struct ''Header'' (builtin_fields Header_kinds) (Some True))"

text \<open>The same struct without the option: big-endian.\<close>

definition HeaderBE :: StructDef where
  "HeaderBE = projr (struct ''Header'' (builtin_fields Header_kinds) None)"

text \<open>The record of that test; its \<open>magic\<close> is the array at address 0 of the heap.\<close>

definition Header_record :: "(string \<times> jsval) list" where
  "Header_record =
     [(''magic'', U8Array 0), (''version'', Number 123), (''flags'', Number 7),
      (''count'', Number 12345)]"

text \<open>The 11 bytes that test expects \<open>to\<close> to return for it.\<close>

definition Header_bytes :: "byte list" where
  "Header_bytes = [0x41, 0x42, 0x43, 0x44, 0x7B, 0, 7, 0x39, 0x30, 0, 0]"

text \<open>The structs of its tests \<open>string fields\<close> and \<open>cstring fields\<close>, and the texts
  \<open>"Test Name"\<close> and \<open>"XYZ"\<close> they store.\<close>

definition StringData :: StructDef where
  "StringData =
     projr (struct ''StringData'' (builtin_fields [(''name'', String 10), (''code'', String 4)]) None)"

definition CStringData :: StructDef where
  "CStringData =
     projr (struct ''CStringData'' (builtin_fields [(''name'', CString 10), (''code'', CString 5)])
              None)"

definition Test_Name :: jsstring where
  "Test_Name = [0x54, 0x65, 0x73, 0x74, 0x20, 0x4E, 0x61, 0x6D, 0x65]"

definition XYZ :: jsstring where
  "XYZ = [0x58, 0x59, 0x5A]"

text \<open>A struct with a field of every kind, little-endian, and a record for it; the heap
  holds the one byte array \<open>"ABCD"\<close>.\<close>

definition Sample_kinds :: "(string \<times> builtin) list" where
  "Sample_kinds =
     [(''magic'', Bytes 4), (''version'', Uint16), (''flags'', Uint8), (''count'', Uint32),
      (''id'', Uint64), (''delta'', Int16), (''code'', String 3), (''label'', CString 10)]"

definition Sample :: StructDef where
  "Sample = projr (struct ''Sample'' (builtin_fields Sample_kinds) (Some True))"

definition Sample_heap :: heap where
  "Sample_heap = [[0x41, 0x42, 0x43, 0x44]]"

definition Sample_record :: "(string \<times> jsval) list" where
  "Sample_record =
     [(''magic'', U8Array 0), (''version'', Number 123), (''flags'', Number 7),
      (''count'', Number 12345), (''id'', BigInt 123456789012345), (''delta'', Number (- 2)),
      (''code'', Str XYZ), (''label'', Str Test_Name)]"


definition Simple :: StructDef where
  "Simple = projr (struct ''Simple'' (builtin_fields [(''value'', Uint32)]) (Some True))"

text \<open>A struct with the one field \<open>constructor: bytes(2)\<close>.\<close>

definition Ctor :: StructDef where
  "Ctor = projr (struct ''Ctor'' (builtin_fields [(''constructor'', Bytes 2)]) None)"

text \<open>Two structs with one two-byte field \<open>code\<close>: a fixed text, and a byte array.\<close>

definition Code2 :: StructDef where
  "Code2 = projr (struct ''Code2'' (builtin_fields [(''code'', String 2)]) None)"

definition Raw2 :: StructDef where
  "Raw2 = projr (struct ''Raw2'' (builtin_fields [(''code'', Bytes 2)]) None)"

text \<open>The integer types of more than one byte, with their width.\<close>

fun multi_byte :: "builtin \<Rightarrow> nat option" where
  "multi_byte Uint16 = Some 2"
| "multi_byte Int16 = Some 2"
| "multi_byte Uint32 = Some 4"
| "multi_byte Int32 = Some 4"
| "multi_byte Uint64 = Some 8"
| "multi_byte Int64 = Some 8"
| "multi_byte _ = None"

text \<open>What holds of the UTF-8 decoder's state in the middle of a sequence: the boundaries
  are continuation bytes, the code point read so far is bounded by the number of bytes
  still to come, and it is not zero unless the lower boundary excludes the byte 80.\<close>

definition utf8_partial :: "utf8_state \<Rightarrow> bool" where
  "utf8_partial st =
     (bytes_needed st = 0 \<or>
      (bytes_seen st < bytes_needed st \<and>
       0x80 \<le> lower_boundary st \<and> upper_boundary st \<le> 0xBF \<and>
       (0 < code_point st \<or> 0x80 < lower_boundary st) \<and>
       ((bytes_needed st - bytes_seen st = 1 \<and> code_point st < 32768) \<or>
        (bytes_needed st - bytes_seen st = 2 \<and> code_point st < 512) \<or>
        (bytes_needed st - bytes_seen st = 3 \<and> code_point st < 8))))"

text \<open>A struct with the one field \<open>tag: cstring(4)\<close>.\<close>

definition Tag4 :: StructDef where
  "Tag4 = projr (struct ''Tag4'' (builtin_fields [(''tag'', CString 4)]) None)"

section \<open>Lemmas about the model\<close>

subsection \<open>Buffers, views and numbers\<close>

lemma length_overwrite: "i + length ys \<le> length xs \<Longrightarrow> length (overwrite xs i ys) = length xs"
  by (simp add: overwrite_def)

lemma overwrite_Nil: "overwrite xs i [] = xs"
  by (simp add: overwrite_def)

lemma overwrite_append:
  "i + length ys + length zs \<le> length xs \<Longrightarrow>
   overwrite (overwrite xs i ys) (i + length ys) zs = overwrite xs i (ys @ zs)"
  by (simp add: overwrite_def ac_simps)

lemma overwrite_at_end:
  "length ys \<le> length zs \<Longrightarrow> overwrite (xs @ zs) (length xs) ys = xs @ ys @ drop (length ys) zs"
  by (simp add: overwrite_def)

lemma segment_overwrite_same:
  "i + length ys \<le> length xs \<Longrightarrow> segment (overwrite xs i ys) i (length ys) = ys"
  by (simp add: overwrite_def segment_def)

lemma length_nat_to_le [simp]: "length (nat_to_le w v) = w"
  by (induction w arbitrary: v) auto

lemma le_to_nat_to_le: "le_to_nat (nat_to_le w v) = v mod 256 ^ w"
proof (induction w arbitrary: v)
  case 0
  then show ?case by simp
next
  case (Suc w)
  have "unat (of_nat (v mod 256) :: byte) = v mod 256"
    by (simp add: unat_of_nat)
  then show ?case
    using Suc[of "v div 256"] by (simp add: mod_mult2_eq)
qed

lemma nat_to_le_zero: "nat_to_le w 0 = replicate w 0"
  by (induction w) auto

lemma SetViewValue_ok:
  "0 \<le> i \<Longrightarrow> i + int (length raw) \<le> int (byteLength dv) \<Longrightarrow>
   SetViewValue dv i le raw =
     Inr (dv\<lparr>buffer := overwrite (buffer dv) (byteOffset dv + nat i) (endian le raw)\<rparr>)"
  by (simp add: SetViewValue_def endian_def)

lemma GetViewValue_ok:
  "0 \<le> i \<Longrightarrow> i + int w \<le> int (byteLength dv) \<Longrightarrow>
   GetViewValue dv i le w = Inr (endian le (segment (buffer dv) (byteOffset dv + nat i) w))"
  by (simp add: GetViewValue_def endian_def segment_def Let_def)


lemma getUint8_ok:
  "wf_view dv \<Longrightarrow> 0 \<le> i \<Longrightarrow> i < int (byteLength dv) \<Longrightarrow>
   getUint8 dv i = Inr (buffer dv ! (byteOffset dv + nat i))"
  by (simp add: getUint8_def GetViewValue_def wf_view_def hd_drop_conv_nth take_Suc_conv_app_nth hd_conv_nth)


lemma setUint8_ok:
  "0 \<le> i \<Longrightarrow> i < int (byteLength dv) \<Longrightarrow>
   setUint8 dv i b = Inr (dv\<lparr>buffer := overwrite (buffer dv) (byteOffset dv + nat i) [b]\<rparr>)"
  by (simp add: setUint8_def SetViewValue_def)

lemma for_setUint8_ok:
  "wf_view dv \<Longrightarrow> 0 \<le> off \<Longrightarrow> off + int b \<le> int (byteLength dv) \<Longrightarrow> a \<le> b \<Longrightarrow>
   for_setUint8 dv off f [a..<b] =
     Inr (dv\<lparr>buffer := overwrite (buffer dv) (byteOffset dv + nat off + a) (map f [a..<b])\<rparr>)"
proof (induction "b - a" arbitrary: a dv)
  case 0
  then show ?case by (simp add: overwrite_Nil)
next
  case (Suc n)
  then have ab: "a < b" by simp
  let ?p = "byteOffset dv + nat off + a"
  let ?dv' = "dv\<lparr>buffer := overwrite (buffer dv) ?p [f a]\<rparr>"
  have inr: "?p + 1 + (b - Suc a) \<le> length (buffer dv)"
    using Suc.prems ab by (simp add: wf_view_def)
  have s: "setUint8 dv (off + int a) (f a) = Inr ?dv'"
    using Suc.prems ab by (simp add: setUint8_ok nat_add_distrib add.assoc)
  have wf': "wf_view ?dv'"
    using Suc.prems inr by (simp add: wf_view_def length_overwrite)
  have "for_setUint8 ?dv' off f [Suc a..<b] =
     Inr (?dv'\<lparr>buffer := overwrite (buffer ?dv') (byteOffset ?dv' + nat off + Suc a) (map f [Suc a..<b])\<rparr>)"
    using Suc.hyps(2) Suc.prems ab wf' by (intro Suc.hyps(1)) auto
  moreover have "overwrite (overwrite (buffer dv) ?p [f a]) (?p + length [f a]) (map f [Suc a..<b])
      = overwrite (buffer dv) ?p ([f a] @ map f [Suc a..<b])"
    using inr by (intro overwrite_append) simp
  ultimately show ?case
    using ab s by (simp add: upt_conv_Cons)
qed

subsection \<open>What each writer stores\<close>

lemma map_index_pad:
  "map (\<lambda>i. if i < length bs then bs ! i else (0::byte)) [0..<n] = take n bs @ replicate (n - length bs) 0"
  by (auto simp: list_eq_iff_nth_eq nth_append)

lemma map_nth_take: "n \<le> length xs \<Longrightarrow> map (\<lambda>i. xs ! i) [0..<n] = take n xs"
  by (auto simp: list_eq_iff_nth_eq)

lemma size_bytes_simps [simp]:
  "size_bytes (bytes n) = n" "size_bytes uint8 = 1" "size_bytes uint16 = 2"
  "size_bytes uint32 = 4" "size_bytes uint64 = 8" "size_bytes int8 = 1" "size_bytes int16 = 2"
  "size_bytes int32 = 4" "size_bytes int64 = 8" "size_bytes (cstring n) = n"
  "size_bytes (string_ft n) = n"
  by (simp_all add: bytes_def uint8_def uint16_def uint32_def uint64_def int8_def
      int16_def int32_def int64_def cstring_def string_ft_def)

lemma size_field_type:
  "size_bytes (field_type k) =
     (case k of Bytes n \<Rightarrow> n | Uint8 \<Rightarrow> 1 | Uint16 \<Rightarrow> 2 | Uint32 \<Rightarrow> 4 | Uint64 \<Rightarrow> 8
      | Int8 \<Rightarrow> 1 | Int16 \<Rightarrow> 2 | Int32 \<Rightarrow> 4 | Int64 \<Rightarrow> 8 | CString n \<Rightarrow> n | String n \<Rightarrow> n)"
  by (cases k) simp_all

lemma length_endian [simp]: "length (endian le bs) = length bs"
  by (simp add: endian_def)

lemma number_write_ok:
  assumes "0 \<le> off" "off + int w \<le> int (byteLength dv)"
    "v = Number n \<or> v = Undefined \<or> v = Inherited m"
  shows "number_write w h dv off v le =
     Inr (dv\<lparr>buffer := overwrite (buffer dv) (byteOffset dv + nat off)
            (endian le (nat_to_le w (ToUintN w (number_of (content_of h v)))))\<rparr>)"
  using assms
  by (auto simp: number_write_def SetViewValue_ok content_of_def number_of_def ToUintN_def)

lemma bigint_write_ok:
  assumes "0 \<le> off" "off + 8 \<le> int (byteLength dv)"
  shows "bigint_write h dv off (BigInt n) le =
     Inr (dv\<lparr>buffer := overwrite (buffer dv) (byteOffset dv + nat off)
            (endian le (nat_to_le 8 (ToUintN 8 (number_of (content_of h (BigInt n))))))\<rparr>)"
  using assms
  by (simp add: bigint_write_def SetViewValue_ok content_of_def number_of_def)

lemma bytes_write_ok:
  assumes "wf_view dv" "0 < n" "0 \<le> off" "off + n \<le> int (byteLength dv)" "a < length h"
  shows "bytes_write n h dv off (U8Array a) le =
     Inr (dv\<lparr>buffer := overwrite (buffer dv) (byteOffset dv + nat off)
            (written (Bytes n) le (content_of h (U8Array a)))\<rparr>)"
proof -
  have "for_setUint8 dv off (\<lambda>i. if i < length (h ! a) then (h ! a) ! i else 0) [0..<nat n] =
      Inr (dv\<lparr>buffer := overwrite (buffer dv) (byteOffset dv + nat off + 0)
         (map (\<lambda>i. if i < length (h ! a) then (h ! a) ! i else 0) [0..<nat n])\<rparr>)"
    using assms by (intro for_setUint8_ok) auto
  then show ?thesis
    using assms by (simp add: bytes_write_def map_index_pad content_of_def elements_of_def)
qed

lemma bytes_write_inherited_ok:
  assumes "wf_view dv" "0 < n" "0 \<le> off" "off + n \<le> int (byteLength dv)"
  shows "bytes_write n h dv off (Inherited m) le =
     Inr (dv\<lparr>buffer := overwrite (buffer dv) (byteOffset dv + nat off)
            (written (Bytes n) le (content_of h (Inherited m)))\<rparr>)"
proof -
  have "for_setUint8 dv off (\<lambda>i. 0) [0..<nat n] =
      Inr (dv\<lparr>buffer := overwrite (buffer dv) (byteOffset dv + nat off + 0)
         (map (\<lambda>i. 0) [0..<nat n])\<rparr>)"
    using assms by (intro for_setUint8_ok) auto
  then show ?thesis
    using assms by (simp add: bytes_write_def content_of_def elements_of_def map_replicate_const)
qed

lemma encode_arg_content:
  "v = Str s \<or> v = Undefined \<Longrightarrow> encode_arg v = Some (encoded_of (content_of h v))"
  by (auto simp: encode_arg_def encoded_of_def content_of_def)

lemma cstring_write_ok:
  assumes "wf_view dv" "0 < n" "0 \<le> off" "off + n \<le> int (byteLength dv)"
    "v = Str s \<or> v = Undefined"
  shows "cstring_write n h dv off v le =
     Inr (dv\<lparr>buffer := overwrite (buffer dv) (byteOffset dv + nat off)
            (written (CString n) le (content_of h v))\<rparr>)"
proof -
  define enc where "enc = encoded_of (content_of h v)"
  define len where "len = min (int (length enc)) (n - 1)"
  define p where "p = byteOffset dv + nat off"
  have len0: "0 \<le> len" "len \<le> n - 1" "nat len \<le> length enc"
    using assms(2) by (auto simp: len_def)
  have ea: "encode_arg v = Some enc"
    using assms(5) by (simp add: encode_arg_content enc_def)
  let ?dv' = "dv\<lparr>buffer := overwrite (buffer dv) p (take (nat len) enc)\<rparr>"
  have "for_setUint8 dv off (\<lambda>i. enc ! i) [0..<nat len] =
      Inr (dv\<lparr>buffer := overwrite (buffer dv) (byteOffset dv + nat off + 0)
         (map (\<lambda>i. enc ! i) [0..<nat len])\<rparr>)"
    using assms len0 by (intro for_setUint8_ok) auto
  then have l1: "for_setUint8 dv off (\<lambda>i. enc ! i) [0..<nat len] = Inr ?dv'"
    using len0 by (simp add: map_nth_take p_def)
  have fit: "p + length (take (nat len) enc) + length [0::byte] \<le> length (buffer dv)"
    using assms len0 by (simp add: wf_view_def p_def)
  have l2: "setUint8 ?dv' (off + len) 0 =
      Inr (?dv'\<lparr>buffer := overwrite (buffer ?dv') (byteOffset ?dv' + nat (off + len)) [0]\<rparr>)"
    using assms len0 by (intro setUint8_ok) auto
  have pos: "byteOffset dv + nat (off + len) = p + length (take (nat len) enc)"
    using assms len0 by (simp add: p_def nat_add_distrib)
  have "overwrite (overwrite (buffer dv) p (take (nat len) enc)) (p + length (take (nat len) enc)) [0]
      = overwrite (buffer dv) p (take (nat len) enc @ [0])"
    using fit by (rule overwrite_append)
  moreover have "take (nat len) enc = take (nat (n - 1)) enc"
    using assms(2) by (auto simp: len_def min_def)
  ultimately show ?thesis
    using ea l1 l2 pos
    by (simp add: cstring_write_def Let_def len_def[symmetric] enc_def[symmetric] p_def[symmetric])
qed

lemma string_write_ok:
  assumes "wf_view dv" "0 \<le> n" "0 \<le> off" "off + n \<le> int (byteLength dv)"
    "v = Str s \<or> v = Undefined"
  shows "string_write n h dv off v le =
     Inr (dv\<lparr>buffer := overwrite (buffer dv) (byteOffset dv + nat off)
            (written (String n) le (content_of h v))\<rparr>)"
proof -
  define enc where "enc = encoded_of (content_of h v)"
  define b where "b = min (int (length enc)) n"
  define p where "p = byteOffset dv + nat off"
  have b0: "0 \<le> b" "b \<le> n" "nat b \<le> length enc"
    using assms(2) by (auto simp: b_def)
  have ea: "encode_arg v = Some enc"
    using assms(5) by (simp add: encode_arg_content enc_def)
  let ?dv' = "dv\<lparr>buffer := overwrite (buffer dv) p (take (nat b) enc)\<rparr>"
  have "for_setUint8 dv off (\<lambda>i. enc ! i) [0..<nat b] =
      Inr (dv\<lparr>buffer := overwrite (buffer dv) (byteOffset dv + nat off + 0)
         (map (\<lambda>i. enc ! i) [0..<nat b])\<rparr>)"
    using assms b0 by (intro for_setUint8_ok) auto
  then have l1: "for_setUint8 dv off (\<lambda>i. enc ! i) [0..<nat b] = Inr ?dv'"
    using b0 by (simp add: map_nth_take p_def)
  have fit: "p + length (take (nat b) enc) + length (replicate (nat n - nat b) (0::byte))
      \<le> length (buffer dv)"
    using assms b0 by (simp add: wf_view_def p_def)
  have wf': "wf_view ?dv'"
    using assms fit by (simp add: wf_view_def length_overwrite)
  have "for_setUint8 ?dv' off (\<lambda>i. 0) [nat b..<nat n] =
      Inr (?dv'\<lparr>buffer := overwrite (buffer ?dv') (byteOffset ?dv' + nat off + nat b)
         (map (\<lambda>i. 0) [nat b..<nat n])\<rparr>)"
    using assms b0 wf' by (intro for_setUint8_ok) auto
  then have l2: "for_setUint8 ?dv' off (\<lambda>i. 0) [nat b..<nat n] =
      Inr (dv\<lparr>buffer := overwrite (overwrite (buffer dv) p (take (nat b) enc))
          (p + length (take (nat b) enc)) (replicate (nat n - nat b) 0)\<rparr>)"
    using b0 by (simp add: p_def map_replicate_const)
  have "overwrite (overwrite (buffer dv) p (take (nat b) enc)) (p + length (take (nat b) enc))
          (replicate (nat n - nat b) 0)
      = overwrite (buffer dv) p (take (nat b) enc @ replicate (nat n - nat b) 0)"
    using fit by (rule overwrite_append)
  moreover have "take (nat b) enc @ replicate (nat n - nat b) 0
      = take (nat n) enc @ replicate (nat n - length enc) 0"
    using assms(2) by (auto simp: b_def min_def)
  ultimately show ?thesis
    using ea l1 l2
    by (simp add: string_write_def Let_def b_def[symmetric] enc_def[symmetric] p_def[symmetric])
qed

lemma write_builtin:
  assumes "wf_view dv" "accepts h k v" "0 < size_bytes (field_type k)" "0 \<le> off"
    "off + size_bytes (field_type k) \<le> int (byteLength dv)"
  shows "write_f (field_type k) h dv off v le =
     Inr (dv\<lparr>buffer := overwrite (buffer dv) (byteOffset dv + nat off)
            (written k le (content_of h v))\<rparr>)"
proof (cases k)
  case (Bytes n)
  with assms have "(\<exists>a. v = U8Array a \<and> a < length h) \<or> (\<exists>m. v = Inherited m)"
    by (cases v) (auto simp: accepts_def)
  with assms Bytes show ?thesis
    by (auto simp add: bytes_def bytes_write_ok bytes_write_inherited_ok simp del: written.simps)
next
  case (CString n)
  with assms have "(\<exists>s. v = Str s) \<or> v = Undefined"
    by (cases v) (auto simp: accepts_def)
  with assms CString show ?thesis
    by (auto simp add: cstring_def cstring_write_ok simp del: written.simps)
next
  case (String n)
  with assms have "(\<exists>s. v = Str s) \<or> v = Undefined"
    by (cases v) (auto simp: accepts_def)
  with assms String show ?thesis
    by (auto simp add: string_ft_def string_write_ok simp del: written.simps)
next
  case Uint64
  with assms obtain n where "v = BigInt n"
    by (cases v) (auto simp: accepts_def)
  with assms Uint64 show ?thesis
    by (simp add: uint64_def bigint_write_ok)
next
  case Int64
  with assms obtain n where "v = BigInt n"
    by (cases v) (auto simp: accepts_def)
  with assms Int64 show ?thesis
    by (simp add: int64_def bigint_write_ok)
next
  case Uint8
  with assms have "(\<exists>n. v = Number n) \<or> v = Undefined \<or> (\<exists>m. v = Inherited m)"
    by (cases v) (auto simp: accepts_def)
  with assms Uint8 show ?thesis
    by (auto simp add: uint8_def number_write_ok endian_def)
next
  case Int8
  with assms have "(\<exists>n. v = Number n) \<or> v = Undefined \<or> (\<exists>m. v = Inherited m)"
    by (cases v) (auto simp: accepts_def)
  with assms Int8 show ?thesis
    by (auto simp add: int8_def number_write_ok endian_def)
next
  case Uint16
  with assms have "(\<exists>n. v = Number n) \<or> v = Undefined \<or> (\<exists>m. v = Inherited m)"
    by (cases v) (auto simp: accepts_def)
  with assms Uint16 show ?thesis
    by (auto simp add: uint16_def number_write_ok)
next
  case Int16
  with assms have "(\<exists>n. v = Number n) \<or> v = Undefined \<or> (\<exists>m. v = Inherited m)"
    by (cases v) (auto simp: accepts_def)
  with assms Int16 show ?thesis
    by (auto simp add: int16_def number_write_ok)
next
  case Uint32
  with assms have "(\<exists>n. v = Number n) \<or> v = Undefined \<or> (\<exists>m. v = Inherited m)"
    by (cases v) (auto simp: accepts_def)
  with assms Uint32 show ?thesis
    by (auto simp add: uint32_def number_write_ok)
next
  case Int32
  with assms have "(\<exists>n. v = Number n) \<or> v = Undefined \<or> (\<exists>m. v = Inherited m)"
    by (cases v) (auto simp: accepts_def)
  with assms Int32 show ?thesis
    by (auto simp add: int32_def number_write_ok)
qed

subsection \<open>What each reader returns\<close>

lemma segment_nth: "i < n \<Longrightarrow> p + n \<le> length xs \<Longrightarrow> segment xs p n ! i = xs ! (p + i)"
  by (simp add: segment_def)

lemma length_segment: "p + n \<le> length xs \<Longrightarrow> length (segment xs p n) = n"
  by (simp add: segment_def)

lemma bytes_parse_loop_ok:
  assumes "wf_view dv" "0 \<le> off" "off + int n \<le> int (byteLength dv)"
  shows "a \<le> n \<Longrightarrow> length res = n \<Longrightarrow>
    bytes_parse_loop dv off [a..<n] res =
      Inr (take a res @ drop a (segment (buffer dv) (byteOffset dv + nat off) n))"
proof (induction "n - a" arbitrary: a res)
  case 0
  then show ?case by (simp add: segment_def)
next
  case (Suc m)
  let ?p = "byteOffset dv + nat off"
  let ?sl = "segment (buffer dv) ?p n"
  have an: "a < n" using Suc by simp
  have fit: "?p + n \<le> length (buffer dv)"
    using assms by (simp add: wf_view_def)
  have g: "getUint8 dv (off + int a) = Inr (?sl ! a)"
    using assms an fit by (simp add: getUint8_ok segment_nth nat_add_distrib add.assoc)
  have "bytes_parse_loop dv off [Suc a..<n] (res[a := ?sl ! a]) =
      Inr (take (Suc a) (res[a := ?sl ! a]) @ drop (Suc a) ?sl)"
    using Suc an by (intro Suc.hyps(1)) auto
  moreover have "take (Suc a) (res[a := ?sl ! a]) = take a res @ [?sl ! a]"
    using an Suc.prems by (simp add: take_Suc_conv_app_nth)
  moreover have "drop a ?sl = ?sl ! a # drop (Suc a) ?sl"
    using an fit by (simp add: Cons_nth_drop_Suc length_segment)
  ultimately show ?case
    using an g by (simp add: upt_conv_Cons)
qed

lemma bytes_parse_ok:
  assumes "wf_view dv" "0 \<le> n" "0 \<le> off" "off + n \<le> int (byteLength dv)"
  shows "bytes_parse n h dv off le =
    Inr (parsed (Bytes n) le h (segment (buffer dv) (byteOffset dv + nat off) (nat n)))"
proof -
  have "bytes_parse_loop dv off [0..<nat n] (replicate (nat n) 0) =
      Inr (take 0 (replicate (nat n) 0) @ drop 0 (segment (buffer dv) (byteOffset dv + nat off) (nat n)))"
    using assms by (intro bytes_parse_loop_ok) auto
  then show ?thesis
    using assms by (simp add: bytes_parse_def parsed_def new_Uint8Array_def)
qed



lemma cstring_parse_loop_ok:
  assumes "wf_view dv" "0 \<le> off" "off + int n \<le> int (byteLength dv)"
  shows "a \<le> n \<Longrightarrow> length res = n \<Longrightarrow>
    \<exists>bs len. cstring_parse_loop dv off [a..<n] res a = Inr (bs, len) \<and>
      take len bs = take a res @ takeWhile (\<lambda>b. b \<noteq> 0) (drop a (segment (buffer dv) (byteOffset dv + nat off) n))"
proof (induction "n - a" arbitrary: a res)
  case 0
  then show ?case by (simp add: segment_def)
next
  case (Suc m)
  let ?p = "byteOffset dv + nat off"
  let ?sl = "segment (buffer dv) ?p n"
  have an: "a < n" using Suc by simp
  have fit: "?p + n \<le> length (buffer dv)"
    using assms by (simp add: wf_view_def)
  have g: "getUint8 dv (off + int a) = Inr (?sl ! a)"
    using assms an fit by (simp add: getUint8_ok segment_nth nat_add_distrib add.assoc)
  have d: "drop a ?sl = ?sl ! a # drop (Suc a) ?sl"
    using an fit by (simp add: Cons_nth_drop_Suc length_segment)
  show ?case
  proof (cases "?sl ! a = 0")
    case True
    with g an d show ?thesis by (simp add: upt_conv_Cons)
  next
    case False
    have "\<exists>bs len. cstring_parse_loop dv off [Suc a..<n] (res[a := ?sl ! a]) (Suc a) = Inr (bs, len) \<and>
      take len bs = take (Suc a) (res[a := ?sl ! a]) @ takeWhile (\<lambda>b. b \<noteq> 0) (drop (Suc a) ?sl)"
      using Suc an by (intro Suc.hyps(1)) auto
    moreover have "take (Suc a) (res[a := ?sl ! a]) = take a res @ [?sl ! a]"
      using an Suc.prems by (simp add: take_Suc_conv_app_nth)
    ultimately show ?thesis
      using an g d False by (simp add: upt_conv_Cons)
  qed
qed

lemma cstring_parse_ok:
  assumes "wf_view dv" "0 \<le> n" "0 \<le> off" "off + n \<le> int (byteLength dv)"
  shows "cstring_parse n h dv off le =
    Inr (parsed (CString n) le h (segment (buffer dv) (byteOffset dv + nat off) (nat n)))"
proof -
  have "\<exists>bs len. cstring_parse_loop dv off [0..<nat n] (replicate (nat n) 0) 0 = Inr (bs, len) \<and>
      take len bs = take 0 (replicate (nat n) 0) @
        takeWhile (\<lambda>b. b \<noteq> 0) (drop 0 (segment (buffer dv) (byteOffset dv + nat off) (nat n)))"
    using assms by (intro cstring_parse_loop_ok) auto
  then show ?thesis
    using assms by (auto simp add: cstring_parse_def parsed_def)
qed

lemma string_parse_ok:
  assumes "wf_view dv" "0 \<le> n" "0 \<le> off" "off + n \<le> int (byteLength dv)"
  shows "string_parse n h dv off le = Inr (parsed (String n) le h (segment (buffer dv) (nat off) (nat n)))"
  using assms by (simp add: string_parse_def parsed_def segment_def wf_view_def)

lemma number_parse_ok:
  assumes "0 \<le> off" "off + int w \<le> int (byteLength dv)"
  shows "number_parse w sg h dv off le =
    Inr (Number (if sg then to_signed w (le_to_nat (endian le (segment (buffer dv) (byteOffset dv + nat off) w)))
                 else int (le_to_nat (endian le (segment (buffer dv) (byteOffset dv + nat off) w)))), h)"
  using assms by (simp add: number_parse_def get_number_def GetViewValue_ok)

lemma bigint_parse_ok:
  assumes "0 \<le> off" "off + 8 \<le> int (byteLength dv)"
  shows "bigint_parse sg h dv off le =
    Inr (BigInt (if sg then to_signed 8 (le_to_nat (endian le (segment (buffer dv) (byteOffset dv + nat off) 8)))
                 else int (le_to_nat (endian le (segment (buffer dv) (byteOffset dv + nat off) 8)))), h)"
  using assms by (simp add: bigint_parse_def get_number_def GetViewValue_ok)



lemma parse_builtin:
  assumes "wf_view dv" "0 \<le> size_bytes (field_type k)" "0 \<le> off"
    "off + size_bytes (field_type k) \<le> int (byteLength dv)"
  shows "parse (field_type k) h dv off le =
     Inr (parsed k le h (segment (buffer dv) (read_base k dv + nat off) (nat (size_bytes (field_type k)))))"
proof (cases k)
  case (Bytes n)
  with assms show ?thesis by (simp add: bytes_def bytes_parse_ok)
next
  case (CString n)
  with assms show ?thesis by (simp add: cstring_def cstring_parse_ok)
next
  case (String n)
  with assms show ?thesis by (simp add: string_ft_def string_parse_ok)
next
  case Uint8
  with assms show ?thesis by (simp add: uint8_def number_parse_ok parsed_def endian_def)
next
  case Int8
  with assms show ?thesis by (simp add: int8_def number_parse_ok parsed_def endian_def)
next
  case Uint16
  with assms show ?thesis by (simp add: uint16_def number_parse_ok parsed_def)
next
  case Int16
  with assms show ?thesis by (simp add: int16_def number_parse_ok parsed_def)
next
  case Uint32
  with assms show ?thesis by (simp add: uint32_def number_parse_ok parsed_def)
next
  case Int32
  with assms show ?thesis by (simp add: int32_def number_parse_ok parsed_def)
next
  case Uint64
  with assms show ?thesis by (simp add: uint64_def bigint_parse_ok parsed_def)
next
  case Int64
  with assms show ?thesis by (simp add: int64_def bigint_parse_ok parsed_def)
qed


subsection \<open>The layout loop\<close>

lemma layout_total: "fst (layout flds t offs) = t + sum_list (sizes flds)"
  by (induction flds arbitrary: t offs) (auto simp: sizes_def)

lemma layout_other: "k \<notin> fst ` set flds \<Longrightarrow> snd (layout flds t offs) k = offs k"
  by (induction flds arbitrary: t offs) (auto simp: set_offset_def)

lemma layout_proto:
  "offs ''__proto__'' = None \<Longrightarrow> snd (layout flds t offs) ''__proto__'' = None"
  by (induction flds arbitrary: t offs) (auto simp: set_offset_def)

lemma layout_offsets:
  "distinct (map fst flds) \<Longrightarrow> i < length flds \<Longrightarrow> fst (flds ! i) \<noteq> ''__proto__'' \<Longrightarrow>
   snd (layout flds t offs) (fst (flds ! i)) = Some (t + offset_at flds i)"
proof (induction flds arbitrary: t offs i)
  case Nil
  then show ?case by simp
next
  case (Cons f flds)
  obtain k ft where f: "f = (k, ft)" by (cases f)
  show ?case
  proof (cases i)
    case 0
    with Cons.prems f show ?thesis
      by (simp add: layout_other offset_at_def set_offset_def)
  next
    case (Suc j)
    with Cons.prems f have "snd (layout flds (t + size_bytes ft) (set_offset offs k t)) (fst (flds ! j))
        = Some (t + size_bytes ft + offset_at flds j)"
      by (intro Cons.IH) auto
    with Suc f show ?thesis
      by (simp add: offset_at_def sizes_def)
  qed
qed

lemma offset_at_Suc: "i < length flds \<Longrightarrow> offset_at flds (Suc i) = offset_at flds i + sizes flds ! i"
  by (simp add: offset_at_def take_Suc_conv_app_nth sizes_def)

lemma offset_at_mono:
  assumes "\<forall>s \<in> set (sizes flds). 0 < s" "i < j" "j \<le> length flds"
  shows "offset_at flds i < offset_at flds j"
  using assms(2,3)
proof (induction j)
  case 0
  then show ?case by simp
next
  case (Suc j)
  have pos: "0 < sizes flds ! j" using assms(1) Suc.prems by (simp add: sizes_def)
  show ?case
  proof (cases "i = j")
    case True
    with pos Suc.prems show ?thesis by (simp add: offset_at_Suc)
  next
    case False
    with Suc have "offset_at flds i < offset_at flds j" by simp
    with pos Suc.prems show ?thesis by (simp add: offset_at_Suc)
  qed
qed

lemma struct_Inr:
  "struct nm flds opts = Inr S \<longleftrightarrow>
     S = \<lparr>name = nm, size_total = fst (layout flds 0 Map.empty), field_list = flds,
          fieldOffsets = snd (layout flds 0 Map.empty),
          littleEndian = (case opts of None \<Rightarrow> False | Some b \<Rightarrow> b)\<rparr>"
  by (auto simp: struct_def split: prod.splits)

lemma struct_size: "struct nm flds opts = Inr S \<Longrightarrow> size_total S = sum_list (sizes flds)"
  using layout_total[of flds 0 Map.empty] by (simp add: struct_Inr)

lemma struct_offsets:
  "struct nm flds opts = Inr S \<Longrightarrow> distinct (map fst flds) \<Longrightarrow> i < length flds \<Longrightarrow>
   fst (flds ! i) \<noteq> ''__proto__'' \<Longrightarrow>
   fieldOffsets S (fst (flds ! i)) = Some (offset_at flds i)"
  using layout_offsets[of flds i 0 Map.empty] by (simp add: struct_Inr)

lemma struct_no_proto: "struct nm flds opts = Inr S \<Longrightarrow> fieldOffsets S ''__proto__'' = None"
  using layout_proto[of Map.empty flds 0] by (simp add: struct_Inr)

lemma struct_other_names:
  "struct nm flds opts = Inr S \<Longrightarrow> k \<notin> fst ` set flds \<Longrightarrow> fieldOffsets S k = None"
  using layout_other[of k flds 0 Map.empty] by (simp add: struct_Inr)

lemma nth_not_proto:
  "''__proto__'' \<notin> fst ` set ks \<Longrightarrow> i < length ks \<Longrightarrow> fst (ks ! i) \<noteq> ''__proto__''"
  by (metis image_eqI nth_mem)

lemma get_offset_stored [simp]: "n \<noteq> ''__proto__'' \<Longrightarrow> get_offset offs n = offs n"
  by (simp add: get_offset_def)

lemma struct_littleEndian:
  "struct nm flds opts = Inr S \<Longrightarrow> littleEndian S = (opts = Some True)"
  by (cases opts) (auto simp: struct_Inr)

lemma struct_fields: "struct nm flds opts = Inr S \<Longrightarrow> field_list S = flds"
  by (simp add: struct_Inr)

subsection \<open>The order of enumeration\<close>

lemma enumeration_of_no_index:
  "\<forall>n \<in> fst ` set ps. \<not> is_array_index n \<Longrightarrow> enumeration_of ps = ps"
proof -
  assume a: "\<forall>n \<in> fst ` set ps. \<not> is_array_index n"
  then have "filter (\<lambda>(n, v). is_array_index n) ps = []"
    by (auto simp: filter_empty_conv)
  moreover have "filter (\<lambda>(n, v). \<not> is_array_index n) ps = ps"
    using a by (intro filter_True) auto
  ultimately show ?thesis by (simp add: enumeration_of_def)
qed

lemma set_enumeration_of [simp]: "set (enumeration_of ps) = set ps"
  by (auto simp: enumeration_of_def)

lemma length_enumeration_of [simp]: "length (enumeration_of ps) = length ps"
proof -
  have "length (filter (\<lambda>(n, v). is_array_index n) ps) +
      length (filter (\<lambda>(n, v). \<not> is_array_index n) ps) = length ps"
    using sum_length_filter_compl[of "\<lambda>(n, v). is_array_index n" ps]
    by (simp add: case_prod_unfold)
  then show ?thesis by (simp add: enumeration_of_def)
qed

lemma distinct_enumeration_of:
  assumes "distinct (map fst ps)"
  shows "distinct (map fst (enumeration_of ps))"
proof -
  have "card (set (map fst (enumeration_of ps))) = card (set (map fst ps))"
    by simp
  also have "\<dots> = length (map fst ps)"
    using assms by (rule distinct_card)
  also have "\<dots> = length (map fst (enumeration_of ps))"
    by simp
  finally show ?thesis by (rule card_distinct)
qed

subsection \<open>Field lists of built-in types\<close>

lemma length_builtin_fields [simp]: "length (builtin_fields ks) = length ks"
  by (simp add: builtin_fields_def)

lemma fst_builtin_fields [simp]: "map fst (builtin_fields ks) = map fst ks"
  by (simp add: builtin_fields_def case_prod_unfold)

lemma fst_builtin_fields_nth [simp]:
  "i < length ks \<Longrightarrow> fst (builtin_fields ks ! i) = fst (ks ! i)"
  by (simp add: builtin_fields_def case_prod_unfold)

lemma builtin_fields_Cons [simp]:
  "builtin_fields ((n, k) # ks) = (n, field_type k) # builtin_fields ks"
  by (simp add: builtin_fields_def)

lemma builtin_fields_Nil [simp]: "builtin_fields [] = []"
  by (simp add: builtin_fields_def)

lemma sizes_Cons [simp]: "sizes ((n, ft) # flds) = size_bytes ft # sizes flds"
  by (simp add: sizes_def)

lemma sizes_Nil [simp]: "sizes [] = []"
  by (simp add: sizes_def)

lemma offset_at_0 [simp]: "offset_at flds 0 = 0"
  by (simp add: offset_at_def)

lemma offset_at_Cons_Suc [simp]:
  "offset_at ((n, ft) # flds) (Suc i) = size_bytes ft + offset_at flds i"
  by (simp add: offset_at_def)

lemma offset_at_all: "offset_at flds (length flds) = sum_list (sizes flds)"
  by (simp add: offset_at_def sizes_def)

lemma offset_at_append: "offset_at (pre @ rest) (length pre) = sum_list (sizes pre)"
  by (simp add: offset_at_def sizes_def)

lemma sizes_append [simp]: "sizes (xs @ ys) = sizes xs @ sizes ys"
  by (simp add: sizes_def)

lemma builtin_fields_append [simp]:
  "builtin_fields (xs @ ys) = builtin_fields xs @ builtin_fields ys"
  by (simp add: builtin_fields_def)

lemma sum_sizes_nonneg:
  "\<forall>(n, k) \<in> set ks. 0 \<le> size_bytes (field_type k) \<Longrightarrow> 0 \<le> sum_list (sizes (builtin_fields ks))"
  by (induction ks) (auto)

subsection \<open>What \<open>to\<close> returns\<close>

lemma length_written:
  "0 < size_bytes (field_type k) \<Longrightarrow> length (written k le c) \<le> nat (size_bytes (field_type k))"
  by (cases k) auto

lemma length_image:
  "0 < size_bytes (field_type k) \<Longrightarrow> length (slot_image k le c) = nat (size_bytes (field_type k))"
  using length_written[of k le c] by (simp add: slot_image_def)

lemma record_image_Nil [simp]: "record_image le h values [] = []"
  by (simp add: record_image_def)

lemma record_image_append [simp]:
  "record_image le h values (xs @ ys) = record_image le h values xs @ record_image le h values ys"
  by (simp add: record_image_def)

lemma record_image_Cons [simp]:
  "record_image le h values ((n, k) # ks) =
     slot_image k le (content_of h (get_prop values n)) @ record_image le h values ks"
  by (simp add: record_image_def)

lemma length_record_image:
  "\<forall>(n, k) \<in> set ks. 0 < size_bytes (field_type k) \<Longrightarrow>
   int (length (record_image le h values ks)) = sum_list (sizes (builtin_fields ks))"
  by (induction ks) (auto simp add: length_image)

lemma to_loop_builtin:
  assumes offs: "\<And>i. i < length ks \<Longrightarrow> offs (fst (ks ! i)) = Some (offset_at (builtin_fields ks) i)"
    and pos: "\<forall>(n, k) \<in> set ks. 0 < size_bytes (field_type k)"
    and acc: "\<forall>(n, k) \<in> set ks. accepts h k (get_prop values n)"
    and np: "''__proto__'' \<notin> fst ` set ks"
  shows "ks = pre @ rest \<Longrightarrow>
     buffer dv = record_image le h values pre @
                 replicate (nat (sum_list (sizes (builtin_fields rest)))) 0 \<Longrightarrow>
     byteOffset dv = 0 \<Longrightarrow> byteLength dv = length (buffer dv) \<Longrightarrow>
     to_loop offs le values h (builtin_fields rest) dv =
       Inr (dv\<lparr>buffer := record_image le h values ks\<rparr>)"
proof (induction rest arbitrary: pre dv)
  case Nil
  then show ?case by simp
next
  case (Cons f rest)
  obtain n k where f: "f = (n, k)" by (cases f)
  let ?A = "record_image le h values pre"
  let ?W = "written k le (content_of h (get_prop values n))"
  let ?S = "sum_list (sizes (builtin_fields rest))"
  let ?sz = "size_bytes (field_type k)"
  have mem: "(n, k) \<in> set ks" using Cons.prems(1) f by simp
  have nnp: "n \<noteq> ''__proto__''" using np mem by force
  have szpos: "0 < ?sz" using pos mem by auto
  have acck: "accepts h k (get_prop values n)" using acc mem by auto
  have pospre: "\<forall>(n, k) \<in> set pre. 0 < size_bytes (field_type k)"
    using pos Cons.prems(1) by auto
  have posrest: "\<forall>(n, k) \<in> set rest. 0 \<le> size_bytes (field_type k)"
    using pos Cons.prems(1) by (auto intro: less_imp_le)
  have S0: "0 \<le> ?S" using posrest by (rule sum_sizes_nonneg)
  have lenA: "int (length ?A) = sum_list (sizes (builtin_fields pre))"
    using pospre by (rule length_record_image)
  have "offs (fst (ks ! length pre)) = Some (offset_at (builtin_fields ks) (length pre))"
    using Cons.prems(1) by (intro offs) simp
  then have off: "offs n = Some (int (length ?A))"
    using Cons.prems(1) f lenA offset_at_append[of "builtin_fields pre" "builtin_fields (f # rest)"]
    by simp
  have lenW: "length ?W \<le> nat ?sz" using szpos by (rule length_written)
  have lenbuf: "length (buffer dv) = length ?A + nat (?sz + ?S)"
    using Cons.prems(2) f by simp
  have wf: "wf_view dv" using Cons.prems(3,4) by (simp add: wf_view_def)
  have inrange: "int (length ?A) + ?sz \<le> int (byteLength dv)"
    using Cons.prems(4) lenbuf S0 szpos by simp
  have w: "write_f (field_type k) h dv (int (length ?A)) (get_prop values n) le =
      Inr (dv\<lparr>buffer := overwrite (buffer dv) (byteOffset dv + nat (int (length ?A))) ?W\<rparr>)"
    using wf acck szpos inrange by (intro write_builtin) auto
  let ?Z = "replicate (nat (?sz + ?S)) (0::byte)"
  have "overwrite (?A @ ?Z) (length ?A) ?W = ?A @ ?W @ drop (length ?W) ?Z"
    using lenW S0 szpos by (intro overwrite_at_end) simp
  moreover have "drop (length ?W) ?Z = replicate (nat ?sz - length ?W) 0 @ replicate (nat ?S) 0"
    using lenW S0 szpos by (simp add: replicate_add[symmetric] nat_add_distrib del: replicate_add)
  ultimately have buf': "overwrite (buffer dv) (byteOffset dv + nat (int (length ?A))) ?W =
      record_image le h values (pre @ [(n, k)]) @ replicate (nat ?S) 0"
    using Cons.prems(2,3) f by (simp add: slot_image_def)
  let ?dv' = "dv\<lparr>buffer := record_image le h values (pre @ [(n, k)]) @ replicate (nat ?S) 0\<rparr>"
  have lenA': "int (length (record_image le h values (pre @ [(n, k)]))) =
      sum_list (sizes (builtin_fields (pre @ [(n, k)])))"
    using pospre szpos by (intro length_record_image) auto
  have "to_loop offs le values h (builtin_fields rest) ?dv' =
      Inr (?dv'\<lparr>buffer := record_image le h values ks\<rparr>)"
  proof (rule Cons.IH)
    show "ks = (pre @ [(n, k)]) @ rest" using Cons.prems(1) f by simp
    show "buffer ?dv' = record_image le h values (pre @ [(n, k)]) @ replicate (nat ?S) 0" by simp
    show "byteOffset ?dv' = 0" using Cons.prems(3) by simp
    show "byteLength ?dv' = length (buffer ?dv')"
      using Cons.prems(4) lenbuf lenA lenA' S0 szpos
      by (simp add: nat_add_distrib length_image del: record_image_append)
  qed
  then show ?case
    using f off w buf' nnp by (simp del: record_image_append)
qed

lemma struct_to_builtin:
  assumes "struct nm (builtin_fields ks) opts = Inr S"
    and "distinct (map fst ks)"
    and pos: "\<forall>(n, k) \<in> set ks. 0 < size_bytes (field_type k)"
    and acc: "\<forall>(n, k) \<in> set ks. accepts h k (get_prop values n)"
    and np: "''__proto__'' \<notin> fst ` set ks"
  shows "struct_to S h values = Inr (record_image (littleEndian S) h values ks)"
proof -
  have offs: "fieldOffsets S (fst (ks ! i)) = Some (offset_at (builtin_fields ks) i)"
    if i: "i < length ks" for i
  proof -
    have "fst (builtin_fields ks ! i) \<noteq> ''__proto__''"
      using nth_not_proto[OF np i] i by simp
    then show ?thesis
      using struct_offsets[OF assms(1), of i] assms(2) i by simp
  qed
  have sz: "size_total S = sum_list (sizes (builtin_fields ks))"
    using assms(1) by (rule struct_size)
  have nn: "0 \<le> sum_list (sizes (builtin_fields ks))"
    using pos by (intro sum_sizes_nonneg) fastforce
  let ?dv = "\<lparr>buffer = replicate (nat (size_total S)) 0, byteOffset = 0,
             byteLength = nat (size_total S)\<rparr>"
  have "to_loop (fieldOffsets S) (littleEndian S) values h (builtin_fields ks) ?dv =
      Inr (?dv\<lparr>buffer := record_image (littleEndian S) h values ks\<rparr>)"
    using offs pos acc np by (rule to_loop_builtin[where pre="[]"]) (simp_all add: sz)
  then show ?thesis
    using nn sz struct_fields[OF assms(1)] by (simp add: struct_to_def)
qed

subsection \<open>What \<open>from\<close> returns\<close>

lemma update_fresh: "k \<notin> fst ` set al \<Longrightarrow> AList.update k v al = al @ [(k, v)]"
  by (induction al) auto

lemma parsed_heap: "\<exists>ext. snd (parsed k le h bs) = h @ ext"
  by (simp add: parsed_def split: content.splits)

lemma parsed_content:
  "content_of (snd (parsed k le h bs) @ ext) (fst (parsed k le h bs)) = decode_value k le bs"
  by (simp add: parsed_def content_of_def nth_append split: content.splits)

lemma parse_all_keys: "map fst (fst (parse_all le dv offset ks pos h)) = map fst ks"
  by (induction ks arbitrary: pos h) (auto simp: case_prod_unfold)

lemma parse_all_heap: "\<exists>ext. snd (parse_all le dv offset ks pos h) = h @ ext"
proof (induction ks arbitrary: pos h)
  case Nil
  then show ?case by simp
next
  case (Cons f ks)
  obtain n k where f: "f = (n, k)" by (cases f)
  let ?bs = "segment (buffer dv) (read_base k dv + nat (offset + pos)) (nat (size_bytes (field_type k)))"
  obtain e1 where e1: "snd (parsed k le h ?bs) = h @ e1"
    using parsed_heap by blast
  obtain e2 where "snd (parse_all le dv offset ks (pos + size_bytes (field_type k)) (h @ e1)) = (h @ e1) @ e2"
    using Cons.IH by blast
  with e1 f show ?case
    by (auto split: prod.splits)
qed

lemma parse_all_content:
  "i < length ks \<Longrightarrow>
   content_of (snd (parse_all le dv offset ks pos h)) (snd (fst (parse_all le dv offset ks pos h) ! i)) =
     decode_value (snd (ks ! i)) le
       (segment (buffer dv)
          (read_base (snd (ks ! i)) dv + nat (offset + pos + offset_at (builtin_fields ks) i))
          (nat (size_bytes (field_type (snd (ks ! i))))))"
proof (induction ks arbitrary: pos h i)
  case Nil
  then show ?case by simp
next
  case (Cons f ks)
  obtain n k where f: "f = (n, k)" by (cases f)
  let ?bs = "segment (buffer dv) (read_base k dv + nat (offset + pos)) (nat (size_bytes (field_type k)))"
  obtain v h1 where p: "parsed k le h ?bs = (v, h1)" by (cases "parsed k le h ?bs")
  obtain vs h2 where r: "parse_all le dv offset ks (pos + size_bytes (field_type k)) h1 = (vs, h2)"
    by (cases "parse_all le dv offset ks (pos + size_bytes (field_type k)) h1")
  show ?case
  proof (cases i)
    case 0
    obtain ext where "h2 = h1 @ ext"
      using parse_all_heap[of le dv offset ks "pos + size_bytes (field_type k)" h1] r by auto
    then have "content_of h2 v = decode_value k le ?bs"
      using parsed_content[of k le h ?bs ext] p by simp
    with 0 f p r show ?thesis by simp
  next
    case (Suc j)
    then have "j < length ks" using Cons.prems by simp
    from Cons.IH[OF this, of "pos + size_bytes (field_type k)" h1] Suc f p r
    show ?thesis by (simp add: add.assoc)
  qed
qed

lemma from_loop_builtin:
  assumes offs: "\<And>i. i < length ks \<Longrightarrow> offs (fst (ks ! i)) = Some (offset_at (builtin_fields ks) i)"
    and nn: "\<forall>(n, k) \<in> set ks. 0 \<le> size_bytes (field_type k)"
    and dist: "distinct (map fst ks)"
    and wf: "wf_view dv"
    and lo: "0 \<le> offset"
    and hi: "offset + sum_list (sizes (builtin_fields ks)) \<le> int (byteLength dv)"
    and np: "''__proto__'' \<notin> fst ` set ks"
  shows "ks = pre @ rest \<Longrightarrow> map fst result = map fst pre \<Longrightarrow>
     from_loop offs le dv offset (builtin_fields rest) h result =
       Inr (result @ fst (parse_all le dv offset rest (sum_list (sizes (builtin_fields pre))) h),
            snd (parse_all le dv offset rest (sum_list (sizes (builtin_fields pre))) h))"
proof (induction rest arbitrary: pre h result)
  case Nil
  then show ?case by simp
next
  case (Cons f rest)
  obtain n k where f: "f = (n, k)" by (cases f)
  let ?P = "sum_list (sizes (builtin_fields pre))"
  let ?sz = "size_bytes (field_type k)"
  let ?bs = "segment (buffer dv) (read_base k dv + nat (offset + ?P)) (nat ?sz)"
  have mem: "(n, k) \<in> set ks" using Cons.prems(1) f by simp
  have nnp: "n \<noteq> ''__proto__''" using np mem by force
  have sz0: "0 \<le> ?sz" using nn mem by auto
  have P0: "0 \<le> ?P" using nn Cons.prems(1) by (intro sum_sizes_nonneg) auto
  have R0: "0 \<le> sum_list (sizes (builtin_fields rest))"
    using nn Cons.prems(1) by (intro sum_sizes_nonneg) auto
  have total: "sum_list (sizes (builtin_fields ks)) = ?P + ?sz + sum_list (sizes (builtin_fields rest))"
    using Cons.prems(1) f by simp
  have "offs (fst (ks ! length pre)) = Some (offset_at (builtin_fields ks) (length pre))"
    using Cons.prems(1) by (intro offs) simp
  then have off: "offs n = Some ?P"
    using Cons.prems(1) f offset_at_append[of "builtin_fields pre" "builtin_fields (f # rest)"]
    by simp
  have pr: "parse (field_type k) h dv (offset + ?P) le = Inr (parsed k le h ?bs)"
    using wf sz0 lo P0 hi total R0 by (intro parse_builtin) auto
  obtain v h1 where p: "parsed k le h ?bs = (v, h1)" by (cases "parsed k le h ?bs")
  have fresh: "n \<notin> fst ` set result"
  proof -
    have "n \<notin> set (map fst pre)" using dist Cons.prems(1) f by auto
    then show ?thesis using Cons.prems(2) by (metis set_map)
  qed
  have "from_loop offs le dv offset (builtin_fields rest) h1 (result @ [(n, v)]) =
     Inr ((result @ [(n, v)]) @
            fst (parse_all le dv offset rest (sum_list (sizes (builtin_fields (pre @ [(n, k)])))) h1),
          snd (parse_all le dv offset rest (sum_list (sizes (builtin_fields (pre @ [(n, k)])))) h1))"
    using Cons.prems f by (intro Cons.IH) auto
  then show ?case
    using f off pr p fresh nnp by (simp add: update_fresh split: prod.splits)
qed

lemma struct_from_builtin:
  assumes "struct nm (builtin_fields ks) opts = Inr S"
    and dist: "distinct (map fst ks)"
    and nn: "\<forall>(n, k) \<in> set ks. 0 \<le> size_bytes (field_type k)"
    and vis: "\<forall>(n, k) \<in> set ks. n \<notin> hidden_names"
    and wf: "wf_source src"
    and lo: "0 \<le> offset"
    and hi: "offset + size_total S \<le> int (byteLength (view_of src))"
    and np: "''__proto__'' \<notin> fst ` set ks"
  shows "struct_from S h src offset =
     Inr (\<lparr>props = fst (parse_all (littleEndian S) (view_of src) offset ks 0 h), dollar_struct = S\<rparr>,
          snd (parse_all (littleEndian S) (view_of src) offset ks 0 h))"
proof -
  have offs: "fieldOffsets S (fst (ks ! i)) = Some (offset_at (builtin_fields ks) i)"
    if i: "i < length ks" for i
  proof -
    have "fst (builtin_fields ks ! i) \<noteq> ''__proto__''"
      using nth_not_proto[OF np i] i by simp
    then show ?thesis
      using struct_offsets[OF assms(1), of i] dist i by simp
  qed
  have sz: "size_total S = sum_list (sizes (builtin_fields ks))"
    using assms(1) by (rule struct_size)
  let ?dv = "view_of src"
  have nd: "(case src of ArrayBuffer b \<Rightarrow> new_DataView b 0 (length b)
            | Uint8Array b off len \<Rightarrow> new_DataView b off len) = Inr ?dv"
    using wf by (cases src) (auto simp: new_DataView_def view_of_def wf_source_def wf_view_def)
  have fl: "from_loop (fieldOffsets S) (littleEndian S) ?dv offset (builtin_fields ks) h [] =
      Inr ([] @ fst (parse_all (littleEndian S) ?dv offset ks (sum_list (sizes (builtin_fields []))) h),
           snd (parse_all (littleEndian S) ?dv offset ks (sum_list (sizes (builtin_fields []))) h))"
    using offs nn dist wf lo hi sz np
    by (intro from_loop_builtin[where pre="[]"]) (simp_all add: wf_source_def)
  have keys: "map fst (fst (parse_all (littleEndian S) ?dv offset ks 0 h)) = map fst ks"
    by (rule parse_all_keys)
  have "\<forall>x \<in> set (fst (parse_all (littleEndian S) ?dv offset ks 0 h)). fst x \<notin> hidden_names"
  proof
    fix x assume "x \<in> set (fst (parse_all (littleEndian S) ?dv offset ks 0 h))"
    then have "fst x \<in> set (map fst ks)" using keys by (metis image_eqI set_map)
    then show "fst x \<notin> hidden_names" using vis by auto
  qed
  then have "filter (\<lambda>(k, v). k \<notin> hidden_names) (fst (parse_all (littleEndian S) ?dv offset ks 0 h))
      = fst (parse_all (littleEndian S) ?dv offset ks 0 h)"
    by (intro filter_True) auto
  then show ?thesis
    using nd fl struct_fields[OF assms(1)] by (simp add: struct_from_def case_prod_unfold)
qed

subsection \<open>Reading back what was written\<close>

lemma endian_endian [simp]: "endian le (endian le bs) = bs"
  by (simp add: endian_def)

lemma ToUintN_in_range: "0 \<le> v \<Longrightarrow> v < 256 ^ w \<Longrightarrow> ToUintN w v = nat v"
  by (simp add: ToUintN_def power_mult)

lemma ToUintN_less: "ToUintN w v < 256 ^ w"
proof -
  have "v mod 2 ^ (8 * w) < 2 ^ (8 * w)" by simp
  moreover have "0 \<le> v mod 2 ^ (8 * w)" by simp
  ultimately have "nat (v mod 2 ^ (8 * w)) < nat (2 ^ (8 * w))"
    by (intro nat_mono_iff[THEN iffD2]) simp_all
  then show ?thesis
    by (simp add: ToUintN_def power_mult nat_power_eq)
qed

lemma unsigned_round_trip:
  "int (le_to_nat (nat_to_le w (ToUintN w v))) = v mod 2 ^ (8 * w)"
  using ToUintN_less[of w v] by (simp add: le_to_nat_to_le ToUintN_def)

lemma to_signed_ToUintN:
  assumes "0 < w" "- (2 ^ (8 * w - 1)) \<le> v" "v < 2 ^ (8 * w - 1)"
  shows "to_signed w (ToUintN w v) = v"
proof -
  define H :: int where "H = 2 ^ (8 * w - 1)"
  have M: "(2::int) ^ (8 * w) = 2 * H"
    using assms(1) by (simp add: H_def power_Suc[symmetric] del: power_Suc)
  have Hn: "(2::nat) ^ (8 * w - 1) = nat H"
    by (simp add: H_def nat_power_eq)
  have H0: "0 < H" by (simp add: H_def)
  have lo: "- H \<le> v" and hi: "v < H"
    using assms(2,3) by (simp_all add: H_def)
  have Hi: "H = int (2 ^ (8 * w - 1))" by (simp add: H_def)
  have ts: "to_signed w n = (if H \<le> int n then int n - 2 * H else int n)" for n
    unfolding to_signed_def M by (simp only: Hi of_nat_le_iff)
  show ?thesis
  proof (cases "0 \<le> v")
    case True
    then have "v mod (2 * H) = v" using hi H0 by simp
    then show ?thesis
      using True hi H0 by (simp add: ts ToUintN_def M)
  next
    case False
    have "v mod (2 * H) = (v + 2 * H) mod (2 * H)" by simp
    also have "\<dots> = v + 2 * H"
      using False lo H0 by (intro mod_pos_pos_trivial) simp_all
    finally show ?thesis
      using False lo H0 by (simp add: ts ToUintN_def M)
  qed
qed

lemma signed_round_trip:
  assumes "0 < w" "- (2 ^ (8 * w - 1)) \<le> v" "v < 2 ^ (8 * w - 1)"
  shows "to_signed w (le_to_nat (nat_to_le w (ToUintN w v))) = v"
  using assms ToUintN_less[of w v] by (simp add: le_to_nat_to_le to_signed_ToUintN)

lemma image_full:
  "length (written k le c) = nat (size_bytes (field_type k)) \<Longrightarrow> slot_image k le c = written k le c"
  by (simp add: slot_image_def)

lemma decode_image:
  assumes "lossless k c" "0 < size_bytes (field_type k)"
  shows "decode_value k le (slot_image k le c) = c"
proof (cases k)
  case (Bytes n)
  with assms obtain bs where "c = CBytes bs" "int (length bs) = n" by (cases c) auto
  with Bytes show ?thesis by (auto simp: slot_image_def elements_of_def)
next
  case (CString n)
  with assms obtain s where c: "c = CStr s" and l: "int (length (TextEncoder_encode s)) \<le> n - 1"
    and z: "0 \<notin> set (TextEncoder_encode s)" and d: "TextDecoder_decode (TextEncoder_encode s) = s"
    by (cases c) auto
  have "takeWhile (\<lambda>b. b \<noteq> 0) (TextEncoder_encode s @ 0 # replicate m 0) = TextEncoder_encode s" for m
  proof -
    from z have "\<forall>x\<in>set (TextEncoder_encode s). x \<noteq> 0" by auto
    then show ?thesis by (simp add: takeWhile_tail)
  qed
  with CString c l d show ?thesis
    by (simp add: slot_image_def encoded_of_def)
next
  case (String n)
  with assms obtain s where "c = CStr s" "int (length (TextEncoder_encode s)) = n"
    "TextDecoder_decode (TextEncoder_encode s) = s"
    by (cases c) auto
  with String show ?thesis by (auto simp: slot_image_def encoded_of_def)
next
  case Uint8
  with assms obtain v where "c = CNumber v" "0 \<le> v" "v < 2 ^ 8" by (cases c) auto
  with Uint8 show ?thesis
    using unsigned_round_trip[of 1 v] by (simp add: slot_image_def number_of_def)
next
  case Uint16
  with assms obtain v where "c = CNumber v" "0 \<le> v" "v < 2 ^ 16" by (cases c) auto
  with Uint16 show ?thesis
    using unsigned_round_trip[of 2 v] by (simp add: slot_image_def number_of_def)
next
  case Uint32
  with assms obtain v where "c = CNumber v" "0 \<le> v" "v < 2 ^ 32" by (cases c) auto
  with Uint32 show ?thesis
    using unsigned_round_trip[of 4 v] by (simp add: slot_image_def number_of_def)
next
  case Uint64
  with assms obtain v where "c = CBigInt v" "0 \<le> v" "v < 2 ^ 64" by (cases c) auto
  with Uint64 show ?thesis
    using unsigned_round_trip[of 8 v] by (simp add: slot_image_def number_of_def)
next
  case Int8
  with assms obtain v where "c = CNumber v" "- (2 ^ 7) \<le> v" "v < 2 ^ 7" by (cases c) auto
  with Int8 show ?thesis
    using signed_round_trip[of 1 v] by (simp add: slot_image_def number_of_def)
next
  case Int16
  with assms obtain v where "c = CNumber v" "- (2 ^ 15) \<le> v" "v < 2 ^ 15" by (cases c) auto
  with Int16 show ?thesis
    using signed_round_trip[of 2 v] by (simp add: slot_image_def number_of_def)
next
  case Int32
  with assms obtain v where "c = CNumber v" "- (2 ^ 31) \<le> v" "v < 2 ^ 31" by (cases c) auto
  with Int32 show ?thesis
    using signed_round_trip[of 4 v] by (simp add: slot_image_def number_of_def)
next
  case Int64
  with assms obtain v where "c = CBigInt v" "- (2 ^ 63) \<le> v" "v < 2 ^ 63" by (cases c) auto
  with Int64 show ?thesis
    using signed_round_trip[of 8 v] by (simp add: slot_image_def number_of_def)
qed

lemma segment_middle: "segment (A @ B @ C) (length A) (length B) = B"
  by (simp add: segment_def)

lemma offset_at_take:
  "offset_at (builtin_fields ks) i = sum_list (sizes (builtin_fields (take i ks)))"
  by (simp add: offset_at_def sizes_def builtin_fields_def take_map)

lemma segment_record_image:
  assumes pos: "\<forall>(n, k) \<in> set ks. 0 < size_bytes (field_type k)" and i: "i < length ks"
  shows "segment (record_image le h values ks) (nat (offset_at (builtin_fields ks) i))
           (nat (size_bytes (field_type (snd (ks ! i))))) =
         slot_image (snd (ks ! i)) le (content_of h (get_prop values (fst (ks ! i))))"
proof -
  let ?A = "record_image le h values (take i ks)"
  let ?B = "slot_image (snd (ks ! i)) le (content_of h (get_prop values (fst (ks ! i))))"
  let ?C = "record_image le h values (drop (Suc i) ks)"
  have ks: "ks = take i ks @ (fst (ks ! i), snd (ks ! i)) # drop (Suc i) ks"
    using i by (simp add: id_take_nth_drop[symmetric])
  have "record_image le h values ks = record_image le h values (take i ks @ (fst (ks ! i), snd (ks ! i)) # drop (Suc i) ks)"
    using ks by simp
  then have split: "record_image le h values ks = ?A @ ?B @ ?C"
    by (simp only: record_image_append record_image_Cons)
  have "\<forall>(n, k) \<in> set (take i ks). 0 < size_bytes (field_type k)"
    using pos by (auto dest: in_set_takeD)
  then have "int (length ?A) = offset_at (builtin_fields ks) i"
    by (simp add: length_record_image offset_at_take)
  then have lenA: "nat (offset_at (builtin_fields ks) i) = length ?A" by simp
  have "0 < size_bytes (field_type (snd (ks ! i)))"
    using pos i by (metis (mono_tags, lifting) case_prodD nth_mem prod.collapse)
  then have lenB: "nat (size_bytes (field_type (snd (ks ! i)))) = length ?B"
    by (simp add: length_image)
  show ?thesis
    unfolding split lenA lenB by (rule segment_middle)
qed

lemma get_prop_nth:
  "distinct (map fst al) \<Longrightarrow> i < length al \<Longrightarrow> get_prop al (fst (al ! i)) = snd (al ! i)"
proof -
  assume d: "distinct (map fst al)" and i: "i < length al"
  then have "(fst (al ! i), snd (al ! i)) \<in> set al" by simp
  with d have "map_of al (fst (al ! i)) = Some (snd (al ! i))"
    by (simp only: map_of_eq_Some_iff)
  then show ?thesis by (simp add: get_prop_def)
qed

subsection \<open>ASCII text\<close>

lemma scalar_values_ascii: "\<forall>c \<in> set cs. c < 0x80 \<Longrightarrow> scalar_values cs = cs"
  by (induction cs rule: scalar_values.induct) (auto simp: is_lead_def is_trail_def)

lemma utf8_bytes_ascii: "\<forall>c \<in> set cs. c < 0x80 \<Longrightarrow> concat (map utf8_bytes cs) = cs"
  by (induction cs) (auto simp: utf8_bytes_def)

lemma utf8_run_ascii: "\<forall>b \<in> set bs. b < 0x80 \<Longrightarrow> utf8_run utf8_init bs = bs"
  by (induction bs) (auto simp: utf8_handler_def utf8_lead_def utf8_init_def)

lemma utf16_units_ascii: "\<forall>c \<in> set cs. c < 0x80 \<Longrightarrow> concat (map utf16_units cs) = cs"
  by (induction cs) (auto simp: utf16_units_def)

lemma unat_narrow: "unat (u :: 16 word) < 256 \<Longrightarrow> unat (ucast u :: byte) = unat u"
  by (simp add: unsigned_ucast_eq take_bit_eq_mod)

lemma encode_ascii:
  assumes "\<forall>u \<in> set s. unat u < 0x80"
  shows "TextEncoder_encode s = map (\<lambda>u. of_nat (unat u)) s"
proof -
  have a: "\<forall>c \<in> set (map unat s). c < 0x80"
    using assms by auto
  show ?thesis
    unfolding TextEncoder_encode_def scalar_values_ascii[OF a] utf8_bytes_ascii[OF a]
    by (simp add: comp_def)
qed

lemma decode_ascii:
  assumes "\<forall>b \<in> set bs. unat b < 0x80"
  shows "TextDecoder_decode bs = map (\<lambda>b. of_nat (unat b)) bs"
proof -
  have a: "\<forall>c \<in> set (map unat bs). c < 0x80"
    using assms by auto
  have "take 3 (map unat bs) \<noteq> [0xEF, 0xBB, 0xBF]"
  proof
    assume e: "take 3 (map unat bs) = [0xEF, 0xBB, 0xBF]"
    then have "(0xEF::nat) \<in> set (take 3 (map unat bs))" by simp
    then have "(0xEF::nat) \<in> set (map unat bs)" by (rule in_set_takeD)
    with a show False by auto
  qed
  then have "TextDecoder_decode bs =
      map of_nat (concat (map utf16_units (utf8_run utf8_init (map unat bs))))"
    by (simp add: TextDecoder_decode_def Let_def)
  then show ?thesis
    unfolding utf8_run_ascii[OF a] utf16_units_ascii[OF a] by (simp add: comp_def)
qed

lemma ascii_round_trip:
  assumes "\<forall>u \<in> set s. unat u < 0x80"
  shows "TextDecoder_decode (TextEncoder_encode s) = s"
proof -
  have e: "TextEncoder_encode s = map (\<lambda>u. of_nat (unat u)) s"
    using assms by (rule encode_ascii)
  have small: "unat (of_nat (unat u) :: byte) = unat u" if "u \<in> set s" for u :: "16 word"
  proof -
    from that assms have "unat u < 256" by fastforce
    then show ?thesis by (simp add: unat_narrow)
  qed
  have "\<forall>b \<in> set (map (\<lambda>u. of_nat (unat u)) s :: byte list). unat b < 0x80"
    using small assms by auto
  then have "TextDecoder_decode (map (\<lambda>u. of_nat (unat u)) s :: byte list) =
      map (\<lambda>b. of_nat (unat b)) (map (\<lambda>u. of_nat (unat u)) s :: byte list)"
    by (rule decode_ascii)
  also have "\<dots> = map (\<lambda>u. u) s"
    unfolding map_map
  proof (rule map_cong)
    fix u assume "u \<in> set s"
    then have h: "unat (of_nat (unat u) :: byte) = unat u" by (rule small)
    have "(of_nat (unat (of_nat (unat u) :: byte)) :: 16 word) = u"
      unfolding h by simp
    then show "((\<lambda>b :: byte. (of_nat (unat b) :: 16 word)) \<circ> (\<lambda>u. of_nat (unat u))) u = u"
      by (simp only: comp_def)
  qed simp
  finally show ?thesis using e by simp
qed

lemma encode_ascii_no_zero:
  assumes "\<forall>u \<in> set s. unat u < 0x80 \<and> u \<noteq> 0"
  shows "0 \<notin> set (TextEncoder_encode s)"
proof -
  have e: "TextEncoder_encode s = map (\<lambda>u. of_nat (unat u)) s"
    using assms by (intro encode_ascii) auto
  have "(of_nat (unat u) :: byte) \<noteq> 0" if "u \<in> set s" for u :: "16 word"
  proof -
    from that assms have u: "unat u < 0x80" "u \<noteq> 0" by auto
    then have "unat (of_nat (unat u) :: byte) = unat u" by (simp add: unat_narrow)
    moreover have "unat u \<noteq> 0" using u by (simp add: unat_eq_0)
    ultimately show ?thesis by (metis unat_0)
  qed
  then show ?thesis unfolding e by auto
qed

subsection \<open>When \<open>from\<close> raises\<close>



subsection \<open>When \<open>to\<close> raises\<close>

lemma write_undefined_TypeError:
  assumes "\<not> coerces_undefined k" "0 < size_bytes (field_type k)" "0 \<le> off"
  shows "write_f (field_type k) h dv off Undefined le = Inl TypeError"
  using assms
  by (cases k) (simp_all add: bytes_def bytes_write_def uint64_def int64_def bigint_write_def)

lemma write_builtin_wf:
  assumes "wf_view dv" "accepts h k v" "0 < size_bytes (field_type k)" "0 \<le> off"
    "off + size_bytes (field_type k) \<le> int (byteLength dv)"
  shows "\<exists>dv'. write_f (field_type k) h dv off v le = Inr dv' \<and> wf_view dv' \<and>
           byteLength dv' = byteLength dv \<and> byteOffset dv' = byteOffset dv"
proof -
  let ?W = "written k le (content_of h v)"
  have "length ?W \<le> nat (size_bytes (field_type k))"
    using assms(3) by (rule length_written)
  then have "byteOffset dv + nat off + length ?W \<le> length (buffer dv)"
    using assms by (simp add: wf_view_def)
  then have "length (overwrite (buffer dv) (byteOffset dv + nat off) ?W) = length (buffer dv)"
    by (rule length_overwrite)
  then show ?thesis
    using write_builtin[OF assms, of le] assms(1) by (simp add: wf_view_def)
qed

lemma to_loop_TypeError:
  assumes offs: "\<And>i. i < length ks \<Longrightarrow> offs (fst (ks ! i)) = Some (offset_at (builtin_fields ks) i)"
    and pos: "\<forall>(n, k) \<in> set ks. 0 < size_bytes (field_type k)"
    and acc: "\<forall>(n, k) \<in> set ks. accepts h k (get_prop values n) \<or> get_prop values n = Undefined"
    and np: "''__proto__'' \<notin> fst ` set ks"
  shows "ks = pre @ rest \<Longrightarrow>
     \<exists>(n, k) \<in> set rest. get_prop values n = Undefined \<and> \<not> coerces_undefined k \<Longrightarrow>
     wf_view dv \<Longrightarrow> int (byteLength dv) = sum_list (sizes (builtin_fields ks)) \<Longrightarrow>
     to_loop offs le values h (builtin_fields rest) dv = Inl TypeError"
proof (induction rest arbitrary: pre dv)
  case Nil
  then show ?case by simp
next
  case (Cons f rest)
  obtain n k where f: "f = (n, k)" by (cases f)
  let ?P = "sum_list (sizes (builtin_fields pre))"
  let ?sz = "size_bytes (field_type k)"
  let ?R = "sum_list (sizes (builtin_fields rest))"
  let ?v = "get_prop values n"
  have mem: "(n, k) \<in> set ks" using Cons.prems(1) f by simp
  have nnp: "n \<noteq> ''__proto__''" using np mem by force
  have szpos: "0 < ?sz" using pos mem by auto
  have P0: "0 \<le> ?P" using pos Cons.prems(1) by (intro sum_sizes_nonneg) (auto intro: less_imp_le)
  have R0: "0 \<le> ?R" using pos Cons.prems(1) by (intro sum_sizes_nonneg) (auto intro: less_imp_le)
  have total: "sum_list (sizes (builtin_fields ks)) = ?P + ?sz + ?R"
    using Cons.prems(1) f by simp
  have "offs (fst (ks ! length pre)) = Some (offset_at (builtin_fields ks) (length pre))"
    using Cons.prems(1) by (intro offs) simp
  then have off: "offs n = Some ?P"
    using Cons.prems(1) f offset_at_append[of "builtin_fields pre" "builtin_fields (f # rest)"]
    by simp
  show ?case
  proof (cases "?v = Undefined \<and> \<not> coerces_undefined k")
    case True
    then have "write_f (field_type k) h dv ?P ?v le = Inl TypeError"
      using szpos P0 by (simp add: write_undefined_TypeError)
    with f off nnp show ?thesis by simp
  next
    case False
    have "accepts h k ?v"
    proof (cases "?v = Undefined")
      case True
      with False show ?thesis by (simp add: accepts_def)
    next
      case False
      with acc mem show ?thesis by auto
    qed
    then obtain dv' where w: "write_f (field_type k) h dv ?P ?v le = Inr dv'"
      and wf': "wf_view dv'" and bl: "byteLength dv' = byteLength dv"
      using write_builtin_wf[of dv h k ?v ?P le] Cons.prems(3,4) szpos P0 R0 total by auto
    have bad: "\<exists>(n, k) \<in> set rest. get_prop values n = Undefined \<and> \<not> coerces_undefined k"
      using Cons.prems(2) False f by auto
    have "to_loop offs le values h (builtin_fields rest) dv' = Inl TypeError"
    proof (rule Cons.IH)
      show "ks = (pre @ [(n, k)]) @ rest" using Cons.prems(1) f by simp
      show "\<exists>(n, k) \<in> set rest. get_prop values n = Undefined \<and> \<not> coerces_undefined k"
        by (rule bad)
      show "wf_view dv'" by (rule wf')
      show "int (byteLength dv') = sum_list (sizes (builtin_fields ks))"
        using bl Cons.prems(4) by simp
    qed
    with f off w nnp show ?thesis by simp
  qed
qed

lemma struct_to_TypeError:
  assumes "struct nm (builtin_fields ks) opts = Inr S"
    and "distinct (map fst ks)"
    and pos: "\<forall>(n, k) \<in> set ks. 0 < size_bytes (field_type k)"
    and acc: "\<forall>(n, k) \<in> set ks. accepts h k (get_prop values n) \<or> get_prop values n = Undefined"
    and bad: "\<exists>(n, k) \<in> set ks. get_prop values n = Undefined \<and> \<not> coerces_undefined k"
    and np: "''__proto__'' \<notin> fst ` set ks"
  shows "struct_to S h values = Inl TypeError"
proof -
  have offs: "fieldOffsets S (fst (ks ! i)) = Some (offset_at (builtin_fields ks) i)"
    if i: "i < length ks" for i
  proof -
    have "fst (builtin_fields ks ! i) \<noteq> ''__proto__''"
      using nth_not_proto[OF np i] i by simp
    then show ?thesis
      using struct_offsets[OF assms(1), of i] assms(2) i by simp
  qed
  have sz: "size_total S = sum_list (sizes (builtin_fields ks))"
    using assms(1) by (rule struct_size)
  have nn: "0 \<le> sum_list (sizes (builtin_fields ks))"
    using pos by (intro sum_sizes_nonneg) (auto intro: less_imp_le)
  let ?dv = "\<lparr>buffer = replicate (nat (size_total S)) 0, byteOffset = 0,
             byteLength = nat (size_total S)\<rparr>"
  have "to_loop (fieldOffsets S) (littleEndian S) values h (builtin_fields ks) ?dv = Inl TypeError"
    using offs pos acc np
  proof (rule to_loop_TypeError[where pre="[]"])
    show "ks = [] @ ks" by simp
    show "\<exists>(n, k) \<in> set ks. get_prop values n = Undefined \<and> \<not> coerces_undefined k" by (rule bad)
    show "wf_view ?dv" by (simp add: wf_view_def)
    show "int (byteLength ?dv) = sum_list (sizes (builtin_fields ks))" using sz nn by simp
  qed
  then show ?thesis
    using nn sz struct_fields[OF assms(1)] by (simp add: struct_to_def)
qed

subsection \<open>The decoder makes no zero character out of non-zero bytes\<close>

lemma utf8_lead_partial:
  assumes "0 < b" "utf8_lead b = (out, st')"
  shows "utf8_partial st' \<and> (\<forall>c \<in> set out. 0 < c \<and> c < 2097152)"
proof -
  consider "b \<le> 0x7F" | "0xC2 \<le> b \<and> b \<le> 0xDF" | "0xE0 \<le> b \<and> b \<le> 0xEF"
    | "0xF0 \<le> b \<and> b \<le> 0xF4" | "0x7F < b \<and> b < 0xC2 \<or> 0xF4 < b"
    by linarith
  then show ?thesis
  proof cases
    case 1
    with assms(2) have "out = [b]" "st' = utf8_init"
      by (simp_all add: utf8_lead_def)
    with 1 assms(1) show ?thesis
      by (simp add: utf8_partial_def utf8_init_def)
  next
    case 2
    then have m: "0 < b mod 32" by presburger
    have m': "b mod 32 < 32" by simp
    from 2 have "\<not> b \<le> 0x7F" by simp
    with assms(2) 2 have "out = []"
        "st' = utf8_init\<lparr>bytes_needed := 1, code_point := b mod 32\<rparr>"
      by (simp_all add: utf8_lead_def)
    with m m' show ?thesis
      by (simp add: utf8_partial_def utf8_init_def)
  next
    case 3
    then have m: "b = 0xE0 \<or> 0 < b mod 16" by presburger
    have m': "b mod 16 < 16" by simp
    from 3 have "\<not> b \<le> 0x7F" "\<not> (0xC2 \<le> b \<and> b \<le> 0xDF)" by simp_all
    with assms(2) 3 have "out = []"
        "st' = utf8_init\<lparr>lower_boundary := (if b = 0xE0 then 0xA0 else 0x80),
                           upper_boundary := (if b = 0xED then 0x9F else 0xBF),
                           bytes_needed := 2, code_point := b mod 16\<rparr>"
      by (simp_all add: utf8_lead_def)
    with m m' show ?thesis
      by (auto simp add: utf8_partial_def utf8_init_def)
  next
    case 4
    then have m: "b = 0xF0 \<or> 0 < b mod 8" by presburger
    have m': "b mod 8 < 8" by simp
    from 4 have "\<not> b \<le> 0x7F" "\<not> (0xC2 \<le> b \<and> b \<le> 0xDF)" "\<not> (0xE0 \<le> b \<and> b \<le> 0xEF)"
      by simp_all
    with assms(2) 4 have "out = []"
        "st' = utf8_init\<lparr>lower_boundary := (if b = 0xF0 then 0x90 else 0x80),
                           upper_boundary := (if b = 0xF4 then 0x8F else 0xBF),
                           bytes_needed := 3, code_point := b mod 8\<rparr>"
      by (simp_all add: utf8_lead_def)
    with m m' show ?thesis
      by (auto simp add: utf8_partial_def utf8_init_def)
  next
    case 5
    then have "\<not> b \<le> 0x7F" "\<not> (0xC2 \<le> b \<and> b \<le> 0xDF)" "\<not> (0xE0 \<le> b \<and> b \<le> 0xEF)"
      "\<not> (0xF0 \<le> b \<and> b \<le> 0xF4)"
      by linarith+
    with assms(2) have "out = [0xFFFD]" "st' = utf8_init"
      by (simp_all add: utf8_lead_def)
    then show ?thesis
      by (simp add: utf8_partial_def utf8_init_def)
  qed
qed

lemma utf8_handler_partial:
  assumes "utf8_partial st" "0 < b" "utf8_handler st b = (out, st')"
  shows "utf8_partial st' \<and> (\<forall>c \<in> set out. 0 < c \<and> c < 2097152)"
proof (cases "bytes_needed st = 0")
  case True
  with assms show ?thesis
    using utf8_lead_partial[of b out st'] by (simp add: utf8_handler_def)
next
  case needed: False
  show ?thesis
  proof (cases "b < lower_boundary st \<or> upper_boundary st < b")
    case True
    obtain o1 s1 where l: "utf8_lead b = (o1, s1)" by (cases "utf8_lead b")
    with assms needed True have "out = 0xFFFD # o1" "st' = s1"
      by (auto simp: utf8_handler_def)
    with utf8_lead_partial[OF assms(2) l] show ?thesis by simp
  next
    case False
    let ?c = "code_point st * 64 + b mod 64"
    from assms(1) needed have inv:
      "bytes_seen st < bytes_needed st" "0x80 \<le> lower_boundary st" "upper_boundary st \<le> 0xBF"
      "0 < code_point st \<or> 0x80 < lower_boundary st"
      "(bytes_needed st - bytes_seen st = 1 \<and> code_point st < 32768) \<or>
       (bytes_needed st - bytes_seen st = 2 \<and> code_point st < 512) \<or>
       (bytes_needed st - bytes_seen st = 3 \<and> code_point st < 8)"
      by (simp_all add: utf8_partial_def)
    have lb: "lower_boundary st \<le> b" and ub: "b \<le> upper_boundary st"
      using False by simp_all
    have b1: "0x80 \<le> b" using inv(2) lb by (rule order_trans)
    have b2: "b \<le> 0xBF" using ub inv(3) by (rule order_trans)
    note b = b1 b2
    have bm: "b mod 64 = b - 128"
    proof -
      have "b = (b - 128) + 2 * 64" using b by simp
      then have "b mod 64 = (b - 128) mod 64" by (metis mod_mult_self1)
      then show ?thesis using b by simp
    qed
    have cpos: "0 < ?c"
    proof (cases "0 < code_point st")
      case True
      then show ?thesis by simp
    next
      case False
      with inv(4) have "0x80 < lower_boundary st" by simp
      with lb have "128 < b" by linarith
      with bm show ?thesis by simp
    qed
    have m64: "b mod 64 < 64" by simp
    show ?thesis
    proof (cases "bytes_seen st + 1 \<noteq> bytes_needed st")
      case True
      with assms needed False have o: "out = []"
        and s: "st' = st\<lparr>lower_boundary := 0x80, upper_boundary := 0xBF,
                          code_point := ?c, bytes_seen := bytes_seen st + 1\<rparr>"
        by (auto simp: utf8_handler_def Let_def)
      have nx: "(bytes_needed st - (bytes_seen st + 1) = 1 \<and> ?c < 32768) \<or>
            (bytes_needed st - (bytes_seen st + 1) = 2 \<and> ?c < 512)"
        using inv(1,5) True m64 by linarith
      have lt: "bytes_seen st + 1 < bytes_needed st" using inv(1) True by linarith
      show ?thesis
        unfolding o s utf8_partial_def using nx lt cpos by simp blast
    next
      case last: False
      with assms needed False have o: "out = [?c]" and s: "st' = utf8_init"
        by (auto simp: utf8_handler_def Let_def)
      have "bytes_needed st - bytes_seen st = 1" using inv(1) last by linarith
      with inv(5) have "code_point st < 32768" by linarith
      with m64 have "?c < 2097152" by linarith
      with o s cpos show ?thesis
        by (simp add: utf8_partial_def utf8_init_def)
    qed
  qed
qed

lemma utf8_run_nonzero:
  "utf8_partial st \<Longrightarrow> \<forall>b \<in> set bs. 0 < b \<Longrightarrow>
   \<forall>c \<in> set (utf8_run st bs). 0 < c \<and> c < 2097152"
proof (induction bs arbitrary: st)
  case Nil
  then show ?case by simp
next
  case (Cons b bs)
  obtain out st' where h: "utf8_handler st b = (out, st')" by (cases "utf8_handler st b")
  from Cons.prems have "0 < b" by simp
  from utf8_handler_partial[OF Cons.prems(1) this h]
  have "utf8_partial st'" and o: "\<forall>c \<in> set out. 0 < c \<and> c < 2097152" by auto
  then have "\<forall>c \<in> set (utf8_run st' bs). 0 < c \<and> c < 2097152"
    using Cons.prems(2) by (intro Cons.IH) auto
  with o h show ?case by auto
qed

lemma utf16_units_nonzero:
  "0 < c \<Longrightarrow> c < 2097152 \<Longrightarrow> \<forall>u \<in> set (utf16_units c). 0 < u \<and> u < 65536"
proof -
  assume c: "0 < c" "c < 2097152"
  have "(c - 65536) div 1024 < 2048" using c by simp
  moreover have "(c - 65536) mod 1024 < 1024" by simp
  ultimately show ?thesis
    using c by (auto simp: utf16_units_def)
qed

lemma decode_no_zero:
  assumes "0 \<notin> set bs"
  shows "0 \<notin> set (TextDecoder_decode bs)"
proof -
  let ?ns = "map unat bs"
  let ?ns' = "if take 3 ?ns = [0xEF, 0xBB, 0xBF] then drop 3 ?ns else ?ns"
  have nz: "\<forall>b \<in> set ?ns. 0 < b"
  proof
    fix b assume "b \<in> set ?ns"
    then obtain x where "x \<in> set bs" "b = unat x" by auto
    with assms have "x \<noteq> 0" by auto
    then show "0 < b" using \<open>b = unat x\<close> by (simp add: unat_gt_0)
  qed
  have "set ?ns' \<subseteq> set ?ns" by (auto dest: in_set_dropD)
  with nz have nz': "\<forall>b \<in> set ?ns'. 0 < b" by blast
  have init: "utf8_partial utf8_init" by (simp add: utf8_partial_def utf8_init_def)
  have cps: "\<forall>c \<in> set (utf8_run utf8_init ?ns'). 0 < c \<and> c < 2097152"
    using init nz' by (rule utf8_run_nonzero)
  have units: "\<forall>u \<in> set (concat (map utf16_units (utf8_run utf8_init ?ns'))). 0 < u \<and> u < 65536"
    using cps utf16_units_nonzero by fastforce
  have "(of_nat u :: 16 word) \<noteq> 0" if "0 < u" "u < 65536" for u :: nat
  proof
    assume "(of_nat u :: 16 word) = 0"
    then have "unat (of_nat u :: 16 word) = 0" by simp
    moreover have "unat (of_nat u :: 16 word) = u" using that by (simp add: unat_of_nat)
    ultimately show False using that by simp
  qed
  with units have "\<forall>w \<in> set (map of_nat (concat (map utf16_units (utf8_run utf8_init ?ns'))) :: 16 word list). w \<noteq> 0"
    by auto
  then show ?thesis
    unfolding TextDecoder_decode_def Let_def by metis
qed

subsection \<open>The loop of \<open>$clone\<close>\<close>

lemma update_same_keys: "k \<in> fst ` set al \<Longrightarrow> map fst (AList.update k v al) = map fst al"
  by (induction al) auto

lemma clone_loop_spec:
  assumes "distinct (map fst rest)" and "fst ` set rest \<subseteq> fst ` set cl"
    and "\<forall>(k, v) \<in> set rest. \<forall>a. v = U8Array a \<longrightarrow> a < length h"
    and "clone_loop rest h cl = (cl', h')"
  shows "map fst cl' = map fst cl \<and>
         (\<exists>ext. h' = h @ ext) \<and>
         (\<forall>k. k \<notin> fst ` set rest \<longrightarrow> map_of cl' k = map_of cl k) \<and>
         (\<forall>(k, v) \<in> set rest.
            ((\<forall>a. v \<noteq> U8Array a) \<longrightarrow> map_of cl' k = map_of cl k) \<and>
            (\<forall>a. v = U8Array a \<longrightarrow>
               (\<exists>a'. map_of cl' k = Some (U8Array a') \<and> length h \<le> a' \<and> a' < length h' \<and>
                     h' ! a' = h ! a))) \<and>
         (\<forall>(k1, v1) \<in> set rest. \<forall>(k2, v2) \<in> set rest.
            k1 \<noteq> k2 \<and> (\<exists>a. v1 = U8Array a) \<and> (\<exists>a. v2 = U8Array a) \<longrightarrow>
            map_of cl' k1 \<noteq> map_of cl' k2)"
  using assms
proof (induction rest arbitrary: h cl)
  case Nil
  then show ?case by simp
next
  case (Cons f rest)
  obtain key v where f: "f = (key, v)" by (cases f)
  have knot: "key \<notin> fst ` set rest" using Cons.prems(1) f by auto
  have kin: "key \<in> fst ` set cl" using Cons.prems(2) f by auto
  have drest: "distinct (map fst rest)" using Cons.prems(1) by simp
  show ?case
  proof (cases "\<exists>a. v = U8Array a")
    case True
    then obtain a where v: "v = U8Array a" by blast
    have a: "a < length h" using Cons.prems(3) f v by auto
    let ?h1 = "h @ [h ! a]"
    let ?cl1 = "AList.update key (U8Array (length h)) cl"
    have step: "clone_loop rest ?h1 ?cl1 = (cl', h')"
      using Cons.prems(4) f v by (simp add: new_Uint8Array_def)
    have k1: "map fst ?cl1 = map fst cl" using kin by (rule update_same_keys)
    have sub: "fst ` set rest \<subseteq> fst ` set ?cl1"
    proof -
      have "fst ` set ?cl1 = fst ` set cl" using k1 by (metis set_map)
      then show ?thesis using Cons.prems(2) by auto
    qed
    have val: "\<forall>(k, v) \<in> set rest. \<forall>a. v = U8Array a \<longrightarrow> a < length ?h1"
      using Cons.prems(3) by fastforce
    note IH = Cons.IH[OF drest sub val step]
    from IH obtain ext where ext: "h' = ?h1 @ ext" by blast
    have heap_old: "h' ! b = h ! b" if "b < length h" for b
      using that ext by (simp add: nth_append)
    have head: "map_of cl' key = Some (U8Array (length h))"
      using IH knot by (simp add: update_conv')
    have other: "map_of cl' k = map_of cl k" if "k \<notin> fst ` set (f # rest)" for k
    proof -
      from that have "k \<notin> fst ` set rest" "k \<noteq> key" using f by auto
      with IH show ?thesis by (simp add: update_conv')
    qed
    have part4: "((\<forall>a. w \<noteq> U8Array a) \<longrightarrow> map_of cl' k = map_of cl k) \<and>
        (\<forall>b. w = U8Array b \<longrightarrow>
           (\<exists>a'. map_of cl' k = Some (U8Array a') \<and> length h \<le> a' \<and> a' < length h' \<and>
                 h' ! a' = h ! b))"
      if mem: "(k, w) \<in> set (f # rest)" for k w
    proof (cases "(k, w) = f")
      case True
      then have "k = key" "w = U8Array a" using f v by auto
      then show ?thesis
        using head ext by (auto simp: nth_append)
    next
      case False
      with mem have r: "(k, w) \<in> set rest" by simp
      then have kk: "k \<noteq> key" using knot by force
      from IH r have i4: "((\<forall>a. w \<noteq> U8Array a) \<longrightarrow> map_of cl' k = map_of ?cl1 k) \<and>
        (\<forall>b. w = U8Array b \<longrightarrow>
           (\<exists>a'. map_of cl' k = Some (U8Array a') \<and> length ?h1 \<le> a' \<and> a' < length h' \<and>
                 h' ! a' = ?h1 ! b))"
        by blast
      have "?h1 ! b = h ! b" if "w = U8Array b" for b
      proof -
        from that r Cons.prems(3) have "b < length h" by auto
        then show ?thesis by (simp add: nth_append)
      qed
      with i4 kk show ?thesis
        by (auto simp: update_conv')
    qed
    have part5: "map_of cl' k1 \<noteq> map_of cl' k2"
      if m1: "(k1, v1) \<in> set (f # rest)" and m2: "(k2, v2) \<in> set (f # rest)"
        and ne: "k1 \<noteq> k2" and a1: "\<exists>a. v1 = U8Array a" and a2: "\<exists>a. v2 = U8Array a"
      for k1 v1 k2 v2
    proof -
      have low: "\<exists>a'. map_of cl' k = Some (U8Array a') \<and> length ?h1 \<le> a'"
        if "(k, w) \<in> set rest" "\<exists>a. w = U8Array a" for k w
        using IH that by fastforce
      consider "k1 = key" | "k2 = key" | "k1 \<noteq> key" "k2 \<noteq> key" by blast
      then show ?thesis
      proof cases
        case 1
        with ne m2 f have "(k2, v2) \<in> set rest" by auto
        from low[OF this a2] head 1 show ?thesis by auto
      next
        case 2
        with ne m1 f have "(k1, v1) \<in> set rest" by auto
        from low[OF this a1] head 2 show ?thesis by auto
      next
        case 3
        with m1 m2 f have "(k1, v1) \<in> set rest" "(k2, v2) \<in> set rest" by auto
        with IH ne a1 a2 show ?thesis by blast
      qed
    qed
    have "map fst cl' = map fst cl" using IH k1 by simp
    moreover have "\<exists>ext. h' = h @ ext" using ext by simp
    ultimately show ?thesis
      using other part4 part5 by blast
  next
    case False
    then have step: "clone_loop rest h cl = (cl', h')"
      using Cons.prems(4) f by (cases v) simp_all
    have sub: "fst ` set rest \<subseteq> fst ` set cl" using Cons.prems(2) by auto
    have val: "\<forall>(k, v) \<in> set rest. \<forall>a. v = U8Array a \<longrightarrow> a < length h"
      using Cons.prems(3) by auto
    note IH = Cons.IH[OF drest sub val step]
    have head: "map_of cl' key = map_of cl key" using IH knot by blast
    have part4: "((\<forall>a. w \<noteq> U8Array a) \<longrightarrow> map_of cl' k = map_of cl k) \<and>
        (\<forall>b. w = U8Array b \<longrightarrow>
           (\<exists>a'. map_of cl' k = Some (U8Array a') \<and> length h \<le> a' \<and> a' < length h' \<and>
                 h' ! a' = h ! b))"
      if mem: "(k, w) \<in> set (f # rest)" for k w
    proof (cases "(k, w) = f")
      case True
      then have "k = key" "w = v" using f by auto
      with head False show ?thesis by auto
    next
      case False
      with mem have "(k, w) \<in> set rest" by simp
      with IH show ?thesis by blast
    qed
    have part5: "map_of cl' k1 \<noteq> map_of cl' k2"
      if m1: "(k1, v1) \<in> set (f # rest)" and m2: "(k2, v2) \<in> set (f # rest)"
        and ne: "k1 \<noteq> k2" and a1: "\<exists>a. v1 = U8Array a" and a2: "\<exists>a. v2 = U8Array a"
      for k1 v1 k2 v2
    proof -
      from m1 a1 False f have "(k1, v1) \<in> set rest" by auto
      moreover from m2 a2 False f have "(k2, v2) \<in> set rest" by auto
      ultimately show ?thesis using IH ne a1 a2 by blast
    qed
    have other: "map_of cl' k = map_of cl k" if "k \<notin> fst ` set (f # rest)" for k
      using IH that by auto
    have "map fst cl' = map fst cl" using IH by simp
    moreover have "\<exists>ext. h' = h @ ext" using IH by simp
    ultimately show ?thesis
      using other part4 part5 by blast
  qed
qed

lemma parse_all_valid:
  "\<forall>(k, v) \<in> set (fst (parse_all le dv offset ks pos h)).
     \<forall>a. v = U8Array a \<longrightarrow> a < length (snd (parse_all le dv offset ks pos h))"
proof (induction ks arbitrary: pos h)
  case Nil
  then show ?case by simp
next
  case (Cons f ks)
  obtain n k where f: "f = (n, k)" by (cases f)
  let ?bs = "segment (buffer dv) (read_base k dv + nat (offset + pos)) (nat (size_bytes (field_type k)))"
  obtain v h1 where p: "parsed k le h ?bs = (v, h1)" by (cases "parsed k le h ?bs")
  obtain vs h2 where r: "parse_all le dv offset ks (pos + size_bytes (field_type k)) h1 = (vs, h2)"
    by (cases "parse_all le dv offset ks (pos + size_bytes (field_type k)) h1")
  obtain ext where ext: "h2 = h1 @ ext"
    using parse_all_heap[of le dv offset ks "pos + size_bytes (field_type k)" h1] r by auto
  have "\<forall>a. v = U8Array a \<longrightarrow> a < length h1"
    using p by (auto simp: parsed_def split: content.splits)
  then have hv: "\<forall>a. v = U8Array a \<longrightarrow> a < length h2" using ext by auto
  have "\<forall>(k, v) \<in> set vs. \<forall>a. v = U8Array a \<longrightarrow> a < length h2"
    using Cons.IH[of "pos + size_bytes (field_type k)" h1] r by simp
  with hv f p r show ?case by simp
qed

section \<open>The layout (C5) and construction (C7)\<close>

lemma struct_from_back_reference:
  "struct_from S h src off = Inr (r, h') \<Longrightarrow> dollar_struct r = S"
  by (auto simp: struct_from_def split: sum.splits prod.splits)

text \<open>
  Claim C5 says that in every struct definition each field has as its offset the sum of
  the sizes of the fields declared before it, and that the offsets increase strictly, with
  no overlap. \<open>struct\<close> does not look at the sizes it adds up, it takes the fields in the
  order of \<open>Object.entries\<close>, and it stores the offsets as properties of a plain object.
  \<^item> A byte array of length 0 followed by a one-byte integer gives both fields the offset
    0: the offsets do not increase, and the second field starts where the first does.
  \<^item> A field named \<open>__proto__\<close> gets no offset at all, although its size is counted.
  \<^item> Of the fields \<open>b: uint8\<close> and \<open>1: uint16\<close>, declared in this order, \<open>1\<close> is enumerated
    first: \<open>b\<close>, with no field declared before it, gets the offset 2.
\<close>

theorem C5_counterexample:
  "distinct (map fst [(''a'', bytes 0), (''b'', uint8)]) \<and>
   fieldOffsets (projr (struct ''Z'' [(''a'', bytes 0), (''b'', uint8)] None)) ''a'' = Some 0 \<and>
   fieldOffsets (projr (struct ''Z'' [(''a'', bytes 0), (''b'', uint8)] None)) ''b'' = Some 0 \<and>
   distinct (map fst [(''__proto__'', uint16), (''b'', uint8)]) \<and>
   fieldOffsets (projr (struct ''P'' [(''__proto__'', uint16), (''b'', uint8)] None)) ''__proto__''
     = None \<and>
   fieldOffsets (projr (struct ''P'' [(''__proto__'', uint16), (''b'', uint8)] None)) ''b'' = Some 2 \<and>
   size_total (projr (struct ''P'' [(''__proto__'', uint16), (''b'', uint8)] None)) = 3 \<and>
   enumeration_of [(''b'', uint8), (''1'', uint16)] = [(''1'', uint16), (''b'', uint8)] \<and>
   fieldOffsets (projr (struct ''D'' (enumeration_of [(''b'', uint8), (''1'', uint16)]) None)) ''b''
     = Some 2"
proof -
  have e: "enumeration_of [(''b'', uint8), (''1'', uint16)] = [(''1'', uint16), (''b'', uint8)]"
    by (simp add: enumeration_of_def is_array_index_def index_value_def)
  show ?thesis
    unfolding e by (simp add: struct_def set_offset_def bytes_def uint8_def uint16_def)
qed

text \<open>
  Claim C5, amended. For a struct built from a field map whose fields were declared in the
  order \<open>decl\<close> (names distinct, as the keys of an object are), with \<open>flds\<close> the fields in
  the order in which \<open>Object.entries\<close> enumerates them:
  \<^item> its size is the sum of the field sizes;
  \<^item> the offset stored for each field not named \<open>__proto__\<close> is the sum of the sizes of
    the fields before it, and no offset is stored under \<open>__proto__\<close>;
  \<^item> each such sum is the previous one plus the previous size (no gap, no padding), and
    the last one plus the last size is the struct's size;
  \<^item> \<^emph>\<open>if every field size is positive\<close>, the offsets increase strictly and no field
    overlaps a later one; nothing in \<open>struct\<close> makes the sizes positive;
  \<^item> \<open>from\<close> hands back the very definition it was called on, size and offsets
    unchanged;
  \<^item> the order of enumeration is the order of declaration when no field name is an array
    index.
\<close>

theorem C5_layout:
  assumes "flds = enumeration_of decl" and "distinct (map fst decl)"
    and "struct nm flds opts = Inr S"
  shows "size_total S = sum_list (sizes flds) \<and>
         (\<forall>i<length flds. fst (flds ! i) \<noteq> ''__proto__'' \<longrightarrow>
            fieldOffsets S (fst (flds ! i)) = Some (offset_at flds i)) \<and>
         fieldOffsets S ''__proto__'' = None \<and>
         (\<forall>i. Suc i < length flds \<longrightarrow> offset_at flds (Suc i) = offset_at flds i + sizes flds ! i) \<and>
         (flds \<noteq> [] \<longrightarrow>
            offset_at flds (length flds - 1) + sizes flds ! (length flds - 1) = size_total S) \<and>
         ((\<forall>s\<in>set (sizes flds). 0 < s) \<longrightarrow>
            (\<forall>i j. i < j \<and> j < length flds \<longrightarrow>
               offset_at flds i < offset_at flds j \<and>
               offset_at flds i + sizes flds ! i \<le> offset_at flds j)) \<and>
         (\<forall>h src off r h'. struct_from S h src off = Inr (r, h') \<longrightarrow>
            size_total (dollar_struct r) = size_total S \<and>
            fieldOffsets (dollar_struct r) = fieldOffsets S) \<and>
         ((\<forall>n \<in> fst ` set decl. \<not> is_array_index n) \<longrightarrow> flds = decl)"
proof (intro conjI allI impI)
  show "size_total S = sum_list (sizes flds)"
    using assms(3) by (rule struct_size)
next
  have d: "distinct (map fst flds)"
    unfolding assms(1) using assms(2) by (rule distinct_enumeration_of)
  fix i assume "i < length flds" and "fst (flds ! i) \<noteq> ''__proto__''"
  then show "fieldOffsets S (fst (flds ! i)) = Some (offset_at flds i)"
    using assms(3) d by (simp add: struct_offsets)
next
  show "fieldOffsets S ''__proto__'' = None"
    using assms(3) by (rule struct_no_proto)
next
  fix i assume "Suc i < length flds"
  then show "offset_at flds (Suc i) = offset_at flds i + sizes flds ! i"
    by (simp add: offset_at_Suc)
next
  assume ne: "flds \<noteq> []"
  then have "offset_at flds (Suc (length flds - 1)) =
      offset_at flds (length flds - 1) + sizes flds ! (length flds - 1)"
    by (intro offset_at_Suc) simp
  with ne show "offset_at flds (length flds - 1) + sizes flds ! (length flds - 1) = size_total S"
    using struct_size[OF assms(3)] by (simp add: offset_at_all)
next
  fix i j assume pos: "\<forall>s\<in>set (sizes flds). 0 < s" and ij: "i < j \<and> j < length flds"
  then show "offset_at flds i < offset_at flds j"
    by (simp add: offset_at_mono)
next
  fix i j assume pos: "\<forall>s\<in>set (sizes flds). 0 < s" and ij: "i < j \<and> j < length flds"
  have "offset_at flds (Suc i) = offset_at flds i + sizes flds ! i"
    using ij by (intro offset_at_Suc) simp
  moreover have "Suc i = j \<or> offset_at flds (Suc i) < offset_at flds j"
    using pos ij by (cases "Suc i = j") (simp_all add: offset_at_mono)
  ultimately show "offset_at flds i + sizes flds ! i \<le> offset_at flds j"
    by auto
next
  fix h src off r h' assume "struct_from S h src off = Inr (r, h')"
  then show "size_total (dollar_struct r) = size_total S"
    by (simp add: struct_from_back_reference)
next
  fix h src off r h' assume "struct_from S h src off = Inr (r, h')"
  then show "fieldOffsets (dollar_struct r) = fieldOffsets S"
    by (simp add: struct_from_back_reference)
next
  assume "\<forall>n \<in> fst ` set decl. \<not> is_array_index n"
  then show "flds = decl"
    unfolding assms(1) by (rule enumeration_of_no_index)
qed

lemma Header_fields_eval:
  "builtin_fields Header_kinds =
     [(''magic'', bytes 4), (''version'', uint16), (''flags'', uint8), (''count'', uint32)]"
  by (simp add: Header_kinds_def)

lemma Header_sizes: "sizes (builtin_fields Header_kinds) = [4, 2, 1, 4]"
  by (simp add: Header_kinds_def)

text \<open>The header of the repository's test: sizes 4, 2, 1 and 4, all positive; size 11,
  offsets 0, 4, 6 and 7, and the first field ends where the second starts.\<close>

theorem C5_layout_witness:
  "distinct (map fst (builtin_fields Header_kinds)) \<and>
   list_all (\<lambda>s. 0 < s) (sizes (builtin_fields Header_kinds)) \<and>
   map fst (builtin_fields Header_kinds) = [''magic'', ''version'', ''flags'', ''count''] \<and>
   list_all (\<lambda>n. \<not> is_array_index n) (map fst (builtin_fields Header_kinds)) \<and>
   enumeration_of (builtin_fields Header_kinds) = builtin_fields Header_kinds \<and>
   size_total (projr (struct ''Header'' (builtin_fields Header_kinds) (Some True))) = 11 \<and>
   fieldOffsets (projr (struct ''Header'' (builtin_fields Header_kinds) (Some True))) ''magic'' = Some 0 \<and>
   fieldOffsets (projr (struct ''Header'' (builtin_fields Header_kinds) (Some True))) ''version'' = Some 4 \<and>
   fieldOffsets (projr (struct ''Header'' (builtin_fields Header_kinds) (Some True))) ''flags'' = Some 6 \<and>
   fieldOffsets (projr (struct ''Header'' (builtin_fields Header_kinds) (Some True))) ''count'' = Some 7 \<and>
   offset_at (builtin_fields Header_kinds) 0 < offset_at (builtin_fields Header_kinds) 1 \<and>
   offset_at (builtin_fields Header_kinds) 0 + sizes (builtin_fields Header_kinds) ! 0
     \<le> offset_at (builtin_fields Header_kinds) 1"
proof -
  define S where "S = projr (struct ''Header'' (builtin_fields Header_kinds) (Some True))"
  have s: "struct ''Header'' (builtin_fields Header_kinds) (Some True) = Inr S"
    by (simp add: S_def struct_def split: prod.splits)
  have d: "distinct (map fst (builtin_fields Header_kinds))"
    by (simp add: Header_kinds_def)
  have p: "\<forall>s\<in>set (sizes (builtin_fields Header_kinds)). 0 < s"
    by (simp add: Header_sizes)
  have n: "map fst (builtin_fields Header_kinds) = [''magic'', ''version'', ''flags'', ''count'']"
    by (simp add: Header_kinds_def)
  have na: "list_all (\<lambda>n. \<not> is_array_index n) (map fst (builtin_fields Header_kinds))"
    by (simp add: Header_kinds_def is_array_index_def)
  have nb: "\<forall>n \<in> fst ` set (builtin_fields Header_kinds). \<not> is_array_index n"
    by (simp add: Header_fields_eval is_array_index_def del: builtin_fields_Cons)
  then have en: "enumeration_of (builtin_fields Header_kinds) = builtin_fields Header_kinds"
    by (rule enumeration_of_no_index)
  note c = C5_layout[OF en[symmetric] d s]
  have o: "\<And>i. i < 4 \<Longrightarrow> fst (builtin_fields Header_kinds ! i) \<noteq> ''__proto__'' \<Longrightarrow>
      fieldOffsets S (fst (builtin_fields Header_kinds ! i)) =
      Some (offset_at (builtin_fields Header_kinds) i)"
    using c by (simp add: Header_kinds_def)
  have inc: "\<forall>i j. i < j \<and> j < length (builtin_fields Header_kinds) \<longrightarrow>
      offset_at (builtin_fields Header_kinds) i < offset_at (builtin_fields Header_kinds) j \<and>
      offset_at (builtin_fields Header_kinds) i + sizes (builtin_fields Header_kinds) ! i
        \<le> offset_at (builtin_fields Header_kinds) j"
    by (rule mp[OF c[THEN conjunct2, THEN conjunct2, THEN conjunct2, THEN conjunct2,
            THEN conjunct2, THEN conjunct1] p])
  have i01: "offset_at (builtin_fields Header_kinds) 0 < offset_at (builtin_fields Header_kinds) 1 \<and>
      offset_at (builtin_fields Header_kinds) 0 + sizes (builtin_fields Header_kinds) ! 0
        \<le> offset_at (builtin_fields Header_kinds) 1"
    using inc[rule_format, of 0 1] by (simp add: Header_kinds_def)
  have "size_total S = 11"
    using c by (simp add: Header_sizes)
  moreover have "fieldOffsets S ''magic'' = Some 0"
    using o[of 0] by (simp add: Header_fields_eval)
  moreover have "fieldOffsets S ''version'' = Some 4"
    using o[of 1] by (simp add: Header_fields_eval offset_at_def Header_sizes del: builtin_fields_Cons)
  moreover have "fieldOffsets S ''flags'' = Some 6"
    using o[of 2] by (simp add: Header_fields_eval offset_at_def Header_sizes eval_nat_numeral del: builtin_fields_Cons)
  moreover have "fieldOffsets S ''count'' = Some 7"
    using o[of 3] by (simp add: Header_fields_eval offset_at_def Header_sizes eval_nat_numeral del: builtin_fields_Cons)
  moreover have "list_all (\<lambda>s. 0 < s) (sizes (builtin_fields Header_kinds))"
    by (simp add: Header_sizes)
  ultimately show ?thesis
    using d n i01 na en unfolding S_def by (simp only: simp_thms)
qed

text \<open>
  Claim C7 says that construction fails exactly when some field size is not positive. The
  code does not look at the sizes: a field list with sizes 0 and -1 is accepted, and the
  struct it gives has size -1.
\<close>

theorem C7_counterexample:
  "size_bytes (bytes 0) \<le> 0 \<and> size_bytes (bytes (- 1)) \<le> 0 \<and>
   \<not> isl (struct ''Bad'' [(''a'', bytes 0), (''b'', bytes (- 1))] None) \<and>
   size_total (projr (struct ''Bad'' [(''a'', bytes 0), (''b'', bytes (- 1))] None)) = - 1"
  by (simp add: struct_def bytes_def)

text \<open>
  Claim C7, amended. Struct construction never fails, whatever sizes the field types
  report: it returns the definition with the given name, fields and endianness, and with
  the sum of the reported sizes as its size.
\<close>

theorem C7_construction_total:
  "\<exists>S. struct nm flds opts = Inr S \<and> name S = nm \<and> field_list S = flds \<and>
       size_total S = sum_list (sizes flds) \<and>
       littleEndian S = (case opts of None \<Rightarrow> False | Some b \<Rightarrow> b)"
  using layout_total[of flds 0 Map.empty] by (simp add: struct_Inr)

section \<open>The round trip (C1)\<close>

lemma conforms_accepts: "conforms h k v \<Longrightarrow> accepts h k v"
  by (cases k; cases v) (simp_all add: accepts_def)

lemma struct_projr: "struct nm flds opts = Inr (projr (struct nm flds opts))"
  by (simp add: struct_def split: prod.splits)

lemma encode_Test_Name: "TextEncoder_encode Test_Name = [0x54, 0x65, 0x73, 0x74, 0x20, 0x4E, 0x61, 0x6D, 0x65]"
  by (simp add: encode_ascii Test_Name_def)

lemma encode_XYZ: "TextEncoder_encode XYZ = [0x58, 0x59, 0x5A]"
  by (simp add: encode_ascii XYZ_def)

lemma decode_Test_Name: "TextDecoder_decode [0x54, 0x65, 0x73, 0x74, 0x20, 0x4E, 0x61, 0x6D, 0x65] = Test_Name"
  by (simp add: decode_ascii Test_Name_def)

lemma decode_XYZ: "TextDecoder_decode [0x58, 0x59, 0x5A] = XYZ"
  by (simp add: decode_ascii XYZ_def)

lemma decode_Test_Name_0:
  "TextDecoder_decode [0x54, 0x65, 0x73, 0x74, 0x20, 0x4E, 0x61, 0x6D, 0x65, 0] = Test_Name @ [0]"
  by (simp add: decode_ascii Test_Name_def)

lemma decode_XYZ_0: "TextDecoder_decode [0x58, 0x59, 0x5A, 0] = XYZ @ [0]"
  by (simp add: decode_ascii XYZ_def)

lemma StringData_to:
  "struct_to StringData [] [(''name'', Str Test_Name), (''code'', Str XYZ)] =
     Inr [0x54, 0x65, 0x73, 0x74, 0x20, 0x4E, 0x61, 0x6D, 0x65, 0, 0x58, 0x59, 0x5A, 0]"
proof -
  have "struct_to StringData [] [(''name'', Str Test_Name), (''code'', Str XYZ)] =
      Inr (record_image (littleEndian StringData) [] [(''name'', Str Test_Name), (''code'', Str XYZ)]
             [(''name'', String 10), (''code'', String 4)])"
    unfolding StringData_def
    by (rule struct_to_builtin[OF struct_projr]) (simp_all add: accepts_def get_prop_def)
  then show ?thesis
    by (simp add: slot_image_def get_prop_def content_of_def encoded_of_def encode_Test_Name encode_XYZ)
qed

lemma StringData_from:
  "struct_from StringData []
      (ArrayBuffer [0x54, 0x65, 0x73, 0x74, 0x20, 0x4E, 0x61, 0x6D, 0x65, 0, 0x58, 0x59, 0x5A, 0]) 0 =
     Inr (\<lparr>props = [(''name'', Str (Test_Name @ [0])), (''code'', Str (XYZ @ [0]))],
            dollar_struct = StringData\<rparr>, [])"
proof -
  let ?src = "ArrayBuffer [0x54, 0x65, 0x73, 0x74, 0x20, 0x4E, 0x61, 0x6D, 0x65, 0, 0x58, 0x59, 0x5A, 0]"
  have sz: "size_total StringData = 14"
    unfolding StringData_def using struct_size[OF struct_projr] by simp
  have "struct_from StringData [] ?src 0 =
      Inr (\<lparr>props = fst (parse_all (littleEndian StringData) (view_of ?src) 0
                             [(''name'', String 10), (''code'', String 4)] 0 []),
             dollar_struct = StringData\<rparr>,
           snd (parse_all (littleEndian StringData) (view_of ?src) 0
                  [(''name'', String 10), (''code'', String 4)] 0 []))"
    using sz unfolding StringData_def
    by (intro struct_from_builtin[OF struct_projr])
       (simp_all add: hidden_names_def wf_source_def wf_view_def view_of_def)
  then show ?thesis
    by (simp add: view_of_def parsed_def segment_def decode_Test_Name_0 decode_XYZ_0)
qed

lemma CStringData_to:
  "struct_to CStringData [] [(''name'', Str Test_Name), (''code'', Str [0x58, 0, 0x5A])] =
     Inr [0x54, 0x65, 0x73, 0x74, 0x20, 0x4E, 0x61, 0x6D, 0x65, 0, 0x58, 0, 0x5A, 0, 0]"
proof -
  have e: "TextEncoder_encode [0x58, 0, 0x5A] = [0x58, 0, 0x5A]"
    by (simp add: encode_ascii)
  have "struct_to CStringData [] [(''name'', Str Test_Name), (''code'', Str [0x58, 0, 0x5A])] =
      Inr (record_image (littleEndian CStringData) []
             [(''name'', Str Test_Name), (''code'', Str [0x58, 0, 0x5A])]
             [(''name'', CString 10), (''code'', CString 5)])"
    unfolding CStringData_def
    by (rule struct_to_builtin[OF struct_projr]) (simp_all add: accepts_def get_prop_def)
  then show ?thesis
    by (simp add: slot_image_def get_prop_def content_of_def encoded_of_def encode_Test_Name e)
qed

lemma CStringData_from:
  "struct_from CStringData []
      (ArrayBuffer [0x54, 0x65, 0x73, 0x74, 0x20, 0x4E, 0x61, 0x6D, 0x65, 0, 0x58, 0, 0x5A, 0, 0]) 0 =
     Inr (\<lparr>props = [(''name'', Str Test_Name), (''code'', Str [0x58])],
            dollar_struct = CStringData\<rparr>, [])"
proof -
  let ?src = "ArrayBuffer [0x54, 0x65, 0x73, 0x74, 0x20, 0x4E, 0x61, 0x6D, 0x65, 0, 0x58, 0, 0x5A, 0, 0]"
  have d: "TextDecoder_decode [0x58] = [0x58]"
    by (simp add: decode_ascii)
  have sz: "size_total CStringData = 15"
    unfolding CStringData_def using struct_size[OF struct_projr] by simp
  have "struct_from CStringData [] ?src 0 =
      Inr (\<lparr>props = fst (parse_all (littleEndian CStringData) (view_of ?src) 0
                             [(''name'', CString 10), (''code'', CString 5)] 0 []),
             dollar_struct = CStringData\<rparr>,
           snd (parse_all (littleEndian CStringData) (view_of ?src) 0
                  [(''name'', CString 10), (''code'', CString 5)] 0 []))"
    using sz unfolding CStringData_def
    by (intro struct_from_builtin[OF struct_projr])
       (simp_all add: hidden_names_def wf_source_def wf_view_def view_of_def)
  then show ?thesis
    by (simp add: view_of_def parsed_def segment_def decode_Test_Name d)
qed

text \<open>
  Claim C1 promises the round trip for fixed text whose encoding is at most the field
  width, and for null-terminated text of at most n-1 bytes. Neither holds as stated. In the
  struct of the repository's test \<open>string fields\<close>, \<open>"Test Name"\<close> (9 bytes in
  \<open>string(10)\<close>) and \<open>"XYZ"\<close> (3 bytes in \<open>string(4)\<close>) come back with the padding byte as
  one more character, as that test expects. In the struct of the test \<open>cstring fields\<close>,
  the three characters X, U+0000, Z (3 bytes in \<open>cstring(5)\<close>) come back as \<open>"X"\<close>.
\<close>

theorem C1_counterexample:
  "int (length (TextEncoder_encode Test_Name)) \<le> 10 \<and>
   int (length (TextEncoder_encode XYZ)) \<le> 4 \<and>
   struct_to StringData [] [(''name'', Str Test_Name), (''code'', Str XYZ)] =
     Inr [0x54, 0x65, 0x73, 0x74, 0x20, 0x4E, 0x61, 0x6D, 0x65, 0, 0x58, 0x59, 0x5A, 0] \<and>
   struct_from StringData []
      (ArrayBuffer [0x54, 0x65, 0x73, 0x74, 0x20, 0x4E, 0x61, 0x6D, 0x65, 0, 0x58, 0x59, 0x5A, 0]) 0 =
     Inr (\<lparr>props = [(''name'', Str (Test_Name @ [0])), (''code'', Str (XYZ @ [0]))],
            dollar_struct = StringData\<rparr>, []) \<and>
   Test_Name @ [0] \<noteq> Test_Name \<and> XYZ @ [0] \<noteq> XYZ \<and>
   int (length (TextEncoder_encode [0x58, 0, 0x5A])) \<le> 5 - 1 \<and>
   struct_to CStringData [] [(''name'', Str Test_Name), (''code'', Str [0x58, 0, 0x5A])] =
     Inr [0x54, 0x65, 0x73, 0x74, 0x20, 0x4E, 0x61, 0x6D, 0x65, 0, 0x58, 0, 0x5A, 0, 0] \<and>
   struct_from CStringData []
      (ArrayBuffer [0x54, 0x65, 0x73, 0x74, 0x20, 0x4E, 0x61, 0x6D, 0x65, 0, 0x58, 0, 0x5A, 0, 0]) 0 =
     Inr (\<lparr>props = [(''name'', Str Test_Name), (''code'', Str [0x58])],
            dollar_struct = CStringData\<rparr>, []) \<and>
   [0x58] \<noteq> [0x58, 0, 0x5A :: 16 word]"
  using StringData_to StringData_from CStringData_to CStringData_from
  by (simp add: encode_Test_Name encode_XYZ encode_ascii)


text \<open>
  Claim C1, amended. For a struct of built-in fields (the fields in the order of
  enumeration, names distinct, none of them one of the three hidden method names or
  \<open>__proto__\<close>, sizes positive) and a record that has
  under every field name a value of the field's type (references valid in the heap),
  \<open>to\<close> returns a buffer, \<open>from\<close> on that buffer
  returns a record with the same field names in the same order and the struct as its
  back-reference, and every field whose value is stored without loss reads back with the
  same content: a byte array of exactly the declared length, an integer of width 1, 2, 4 or
  8 within its range, a fixed text whose encoding is \<^emph>\<open>exactly\<close> the field width (a
  shorter text comes back followed by the zero padding), and a null-terminated text whose
  encoding is at most n-1 bytes \<^emph>\<open>and contains no zero byte\<close>; for both texts, text that
  the platform's UTF-8 encoder and decoder return unchanged.
\<close>

theorem C1_round_trip:
  assumes S: "struct nm (builtin_fields ks) opts = Inr S"
    and dist: "distinct (map fst ks)"
    and enum: "enumeration_of ks = ks"
    and ok: "\<forall>(n, k) \<in> set ks.
               0 < size_bytes (field_type k) \<and> n \<notin> hidden_names \<and> n \<noteq> ''__proto__''"
    and conf: "\<forall>(n, k) \<in> set ks. conforms h k (get_prop r n)"
  shows "\<exists>buf inst h'.
           struct_to S h r = Inr buf \<and>
           struct_from S h (ArrayBuffer buf) 0 = Inr (inst, h') \<and>
           map fst (props inst) = map fst ks \<and>
           dollar_struct inst = S \<and>
           (\<forall>(n, k) \<in> set ks.
              lossless k (content_of h (get_prop r n)) \<longrightarrow>
              content_of h' (get_prop (props inst) n) = content_of h (get_prop r n))"
proof -
  let ?le = "littleEndian S"
  let ?buf = "record_image ?le h r ks"
  let ?src = "ArrayBuffer ?buf"
  let ?P = "parse_all ?le (view_of ?src) 0 ks 0 h"
  have pos: "\<forall>(n, k) \<in> set ks. 0 < size_bytes (field_type k)" using ok by auto
  have nn: "\<forall>(n, k) \<in> set ks. 0 \<le> size_bytes (field_type k)" using ok by fastforce
  have vis: "\<forall>(n, k) \<in> set ks. n \<notin> hidden_names" using ok by auto
  have np: "''__proto__'' \<notin> fst ` set ks" using ok by force
  have acc: "\<forall>(n, k) \<in> set ks. accepts h k (get_prop r n)"
    using conf by (auto intro: conforms_accepts)
  have to: "struct_to S h r = Inr ?buf"
    using S dist pos acc np by (rule struct_to_builtin)
  have len: "int (length ?buf) = size_total S"
    using pos struct_size[OF S] by (simp add: length_record_image)
  have frm: "struct_from S h ?src 0 = Inr (\<lparr>props = fst ?P, dollar_struct = S\<rparr>, snd ?P)"
    using S dist nn vis len np
    by (intro struct_from_builtin) (simp_all add: wf_source_def wf_view_def view_of_def)
  have keys: "map fst (fst ?P) = map fst ks" by (rule parse_all_keys)
  have "content_of (snd ?P) (get_prop (fst ?P) n) = content_of h (get_prop r n)"
    if mem: "(n, k) \<in> set ks" and ll: "lossless k (content_of h (get_prop r n))" for n k
  proof -
    from mem obtain i where i: "i < length ks" "ks ! i = (n, k)"
      by (auto simp: in_set_conv_nth)
    have li: "i < length (fst ?P)" using i keys by (metis length_map)
    have "fst (fst ?P ! i) = n"
      using i li keys by (metis fst_conv nth_map)
    then have "get_prop (fst ?P) n = snd (fst ?P ! i)"
      using get_prop_nth[of "fst ?P" i] keys dist li by simp
    moreover have "content_of (snd ?P) (snd (fst ?P ! i)) =
        decode_value k ?le (segment ?buf (nat (offset_at (builtin_fields ks) i))
                              (nat (size_bytes (field_type k))))"
    proof -
      have "read_base k (view_of ?src) = 0" by (cases k) (simp_all add: view_of_def)
      then show ?thesis
        using parse_all_content[OF i(1), of ?le "view_of ?src" 0 0 h] i(2)
        by (simp add: view_of_def)
    qed
    moreover have "segment ?buf (nat (offset_at (builtin_fields ks) i)) (nat (size_bytes (field_type k)))
        = slot_image k ?le (content_of h (get_prop r n))"
      using segment_record_image[OF pos i(1), of ?le h r] i(2) by simp
    moreover have "0 < size_bytes (field_type k)" using pos mem by auto
    ultimately show ?thesis
      using ll by (simp add: decode_image)
  qed
  then have "\<forall>(n, k) \<in> set ks. lossless k (content_of h (get_prop r n)) \<longrightarrow>
      content_of (snd ?P) (get_prop (props \<lparr>props = fst ?P, dollar_struct = S\<rparr>) n) =
        content_of h (get_prop r n)"
    by auto
  with to frm keys show ?thesis
    by (intro exI[of _ ?buf] exI[of _ "\<lparr>props = fst ?P, dollar_struct = S\<rparr>"] exI[of _ "snd ?P"]) simp
qed


lemma Sample_struct: "struct ''Sample'' (builtin_fields Sample_kinds) (Some True) = Inr Sample"
  unfolding Sample_def by (rule struct_projr)

lemma Sample_conforms:
  "\<forall>(n, k) \<in> set Sample_kinds. conforms Sample_heap k (get_prop Sample_record n)"
  by (simp add: Sample_kinds_def Sample_record_def Sample_heap_def get_prop_def)

lemma Sample_ok:
  "\<forall>(n, k) \<in> set Sample_kinds.
     0 < size_bytes (field_type k) \<and> n \<notin> hidden_names \<and> n \<noteq> ''__proto__''"
  by (simp add: Sample_kinds_def hidden_names_def)

lemma Sample_enumeration: "enumeration_of Sample_kinds = Sample_kinds"
  by (rule enumeration_of_no_index) (simp add: Sample_kinds_def is_array_index_def)

lemma XYZ_lossless: "lossless (String 3) (CStr XYZ)"
  by (simp add: encode_XYZ decode_XYZ)

lemma Test_Name_lossless: "lossless (CString 10) (CStr Test_Name)"
  by (simp add: encode_Test_Name decode_Test_Name)

text \<open>The sample record survives the round trip field by field.\<close>

theorem C1_round_trip_witness:
  "struct ''Sample'' (builtin_fields Sample_kinds) (Some True) = Inr Sample \<and>
   distinct (map fst Sample_kinds) \<and>
   enumeration_of Sample_kinds = Sample_kinds \<and>
   list_all (\<lambda>(n, k). 0 < size_bytes (field_type k) \<and> n \<notin> hidden_names \<and> n \<noteq> ''__proto__'')
     Sample_kinds \<and>
   list_all (\<lambda>(n, k). conforms Sample_heap k (get_prop Sample_record n)) Sample_kinds \<and>
   list_all (\<lambda>(n, k). lossless k (content_of Sample_heap (get_prop Sample_record n))) Sample_kinds \<and>
   (\<exists>buf inst h'.
      struct_to Sample Sample_heap Sample_record = Inr buf \<and>
      struct_from Sample Sample_heap (ArrayBuffer buf) 0 = Inr (inst, h') \<and>
      map fst (props inst) =
        [''magic'', ''version'', ''flags'', ''count'', ''id'', ''delta'', ''code'', ''label''] \<and>
      content_of h' (get_prop (props inst) ''magic'') = CBytes [0x41, 0x42, 0x43, 0x44] \<and>
      content_of h' (get_prop (props inst) ''version'') = CNumber 123 \<and>
      content_of h' (get_prop (props inst) ''flags'') = CNumber 7 \<and>
      content_of h' (get_prop (props inst) ''count'') = CNumber 12345 \<and>
      content_of h' (get_prop (props inst) ''id'') = CBigInt 123456789012345 \<and>
      content_of h' (get_prop (props inst) ''delta'') = CNumber (- 2) \<and>
      content_of h' (get_prop (props inst) ''code'') = CStr XYZ \<and>
      content_of h' (get_prop (props inst) ''label'') = CStr Test_Name)"
proof -
  have d: "distinct (map fst Sample_kinds)"
    by (simp add: Sample_kinds_def)
  have ll: "list_all (\<lambda>(n, k). lossless k (content_of Sample_heap (get_prop Sample_record n))) Sample_kinds"
    using XYZ_lossless Test_Name_lossless
    by (simp add: Sample_kinds_def Sample_record_def Sample_heap_def get_prop_def content_of_def)
  from C1_round_trip[OF Sample_struct d Sample_enumeration Sample_ok Sample_conforms]
  obtain buf inst h' where
    to: "struct_to Sample Sample_heap Sample_record = Inr buf" and
    frm: "struct_from Sample Sample_heap (ArrayBuffer buf) 0 = Inr (inst, h')" and
    keys: "map fst (props inst) = map fst Sample_kinds" and
    same: "\<forall>(n, k) \<in> set Sample_kinds.
      lossless k (content_of Sample_heap (get_prop Sample_record n)) \<longrightarrow>
      content_of h' (get_prop (props inst) n) = content_of Sample_heap (get_prop Sample_record n)"
    by blast
  have "\<forall>(n, k) \<in> set Sample_kinds.
      content_of h' (get_prop (props inst) n) = content_of Sample_heap (get_prop Sample_record n)"
    using same ll by (auto simp: list_all_iff)
  then have vals:
    "content_of h' (get_prop (props inst) ''magic'') = CBytes [0x41, 0x42, 0x43, 0x44] \<and>
     content_of h' (get_prop (props inst) ''version'') = CNumber 123 \<and>
     content_of h' (get_prop (props inst) ''flags'') = CNumber 7 \<and>
     content_of h' (get_prop (props inst) ''count'') = CNumber 12345 \<and>
     content_of h' (get_prop (props inst) ''id'') = CBigInt 123456789012345 \<and>
     content_of h' (get_prop (props inst) ''delta'') = CNumber (- 2) \<and>
     content_of h' (get_prop (props inst) ''code'') = CStr XYZ \<and>
     content_of h' (get_prop (props inst) ''label'') = CStr Test_Name"
    by (simp add: Sample_kinds_def Sample_record_def Sample_heap_def get_prop_def content_of_def)
  have k: "map fst (props inst) =
      [''magic'', ''version'', ''flags'', ''count'', ''id'', ''delta'', ''code'', ''label'']"
    using keys by (simp add: Sample_kinds_def)
  have h1: "list_all (\<lambda>(n, k). 0 < size_bytes (field_type k) \<and> n \<notin> hidden_names \<and>
      n \<noteq> ''__proto__'') Sample_kinds"
    using Sample_ok by (simp add: list_all_iff)
  have h2: "list_all (\<lambda>(n, k). conforms Sample_heap k (get_prop Sample_record n)) Sample_kinds"
    using Sample_conforms by (simp add: list_all_iff)
  have "\<exists>buf inst h'.
      struct_to Sample Sample_heap Sample_record = Inr buf \<and>
      struct_from Sample Sample_heap (ArrayBuffer buf) 0 = Inr (inst, h') \<and>
      map fst (props inst) =
        [''magic'', ''version'', ''flags'', ''count'', ''id'', ''delta'', ''code'', ''label''] \<and>
      content_of h' (get_prop (props inst) ''magic'') = CBytes [0x41, 0x42, 0x43, 0x44] \<and>
      content_of h' (get_prop (props inst) ''version'') = CNumber 123 \<and>
      content_of h' (get_prop (props inst) ''flags'') = CNumber 7 \<and>
      content_of h' (get_prop (props inst) ''count'') = CNumber 12345 \<and>
      content_of h' (get_prop (props inst) ''id'') = CBigInt 123456789012345 \<and>
      content_of h' (get_prop (props inst) ''delta'') = CNumber (- 2) \<and>
      content_of h' (get_prop (props inst) ''code'') = CStr XYZ \<and>
      content_of h' (get_prop (props inst) ''label'') = CStr Test_Name"
    using to frm k vals by (intro exI[of _ buf] exI[of _ inst] exI[of _ h']) (simp only: simp_thms)
  with Sample_struct d Sample_enumeration h1 h2 ll show ?thesis
    by (simp only: simp_thms)
qed

section \<open>Bounds of \<open>from\<close> (C2)\<close>



lemma Simple_struct: "struct ''Simple'' (builtin_fields [(''value'', Uint32)]) (Some True) = Inr Simple"
  unfolding Simple_def by (rule struct_projr)


section \<open>Missing fields in \<open>to\<close> (C3)\<close>

lemma Header_struct: "struct ''Header'' (builtin_fields Header_kinds) (Some True) = Inr Header"
  unfolding Header_def by (rule struct_projr)

lemma Ctor_struct:
  "struct ''Ctor'' (builtin_fields [(''constructor'', Bytes 2)]) None = Inr Ctor"
  unfolding Ctor_def by (rule struct_projr)

lemma replicate_4_zero: "replicate 4 (0::byte) = [0, 0, 0, 0]"
  by (simp add: numeral_eq_Suc)

text \<open>A value that no caller passed is stored as zeros by every writer that takes it.\<close>

lemma slot_image_zero:
  assumes "accepts h k v" "v = Undefined \<or> is_inherited v" "0 < size_bytes (field_type k)"
  shows "slot_image k le (content_of h v) = replicate (nat (size_bytes (field_type k))) 0"
proof (rule replicate_eqI)
  show "length (slot_image k le (content_of h v)) = nat (size_bytes (field_type k))"
    using assms(3) by (rule length_image)
next
  fix y assume y: "y \<in> set (slot_image k le (content_of h v))"
  from assms(2) have c: "content_of h v = CUndefined \<or> (\<exists>m. content_of h v = CInherited m)"
    by (cases v) (simp_all add: content_of_def)
  then have n: "number_of (content_of h v) = 0" "elements_of (content_of h v) = []"
    "encoded_of (content_of h v) = []"
    by (auto simp: number_of_def elements_of_def encoded_of_def)
  have "set (written k le (content_of h v)) \<subseteq> {0}"
    by (cases k) (auto simp add: n ToUintN_def nat_to_le_zero endian_def)
  then have "set (slot_image k le (content_of h v)) \<subseteq> {0}"
    by (auto simp: slot_image_def)
  with y show "y = 0" by auto
qed

text \<open>
  Claim C3 says that \<open>to\<close> fails when the record lacks a declared key. \<open>to\<close> has no such
  check: it hands \<open>values[fieldName]\<close> to the field's writer, whatever that is. For the
  missing key \<open>value\<close> it is \<open>undefined\<close>, and \<open>setUint32(offset, undefined)\<close> stores 0: on
  the empty record, the \<open>uint32\<close> struct of the test \<open>offset parsing\<close> returns four zero
  bytes. For the missing key \<open>constructor\<close> it is the function found in
  \<open>Object.prototype\<close>, and a byte-array field of length 2 stores two zero bytes.
\<close>

theorem C3_counterexample:
  "field_list Simple = builtin_fields [(''value'', Uint32)] \<and>
   map_of ([] :: (string \<times> jsval) list) ''value'' = None \<and>
   struct_to Simple [] [] = Inr [0, 0, 0, 0] \<and>
   field_list Ctor = builtin_fields [(''constructor'', Bytes 2)] \<and>
   map_of ([] :: (string \<times> jsval) list) ''constructor'' = None \<and>
   struct_to Ctor [] [] = Inr [0, 0]"
proof -
  have u: "get_prop [] ''value'' = Undefined"
    by (simp add: get_prop_def Object_prototype_names_def)
  have i: "get_prop [] ''constructor'' = Inherited ''constructor''"
    by (simp add: get_prop_def Object_prototype_names_def)
  have "struct_to Simple [] [] =
      Inr (record_image (littleEndian Simple) [] [] [(''value'', Uint32)])"
    by (rule struct_to_builtin[OF Simple_struct]) (simp_all add: accepts_def u)
  moreover have "nat_to_le 4 0 = [0, 0, 0, 0]"
    using replicate_4_zero by (simp only: nat_to_le_zero)
  ultimately have a: "struct_to Simple [] [] = Inr [0, 0, 0, 0]"
    by (simp add: slot_image_def u content_of_def number_of_def ToUintN_def endian_def)
  have "struct_to Ctor [] [] =
      Inr (record_image (littleEndian Ctor) [] [] [(''constructor'', Bytes 2)])"
    by (rule struct_to_builtin[OF Ctor_struct]) (simp_all add: accepts_def i)
  then have b: "struct_to Ctor [] [] = Inr [0, 0]"
    by (simp add: slot_image_def i content_of_def elements_of_def numeral_2_eq_2)
  show ?thesis
    using a b struct_fields[OF Simple_struct] struct_fields[OF Ctor_struct] by simp
qed

text \<open>
  Claim C3, amended. \<open>to\<close> makes no missing-field check at entry. What \<open>values[fieldName]\<close>
  gives reaches the field's writer: for a missing key it is \<open>undefined\<close>, or, when the key
  is one that \<open>Object.prototype\<close> defines (\<open>constructor\<close>, \<open>toString\<close>, ...), the object
  inherited from there. For a struct of built-in fields with distinct names, none of them
  \<open>__proto__\<close> or one of the three hidden method names (which a record returned by \<open>from\<close>
  has as properties), and positive sizes:
  \<^item> if every declared key is present with a value of the field's type, \<open>to\<close> succeeds and
    returns a buffer of exactly \<open>size\<close> bytes;
  \<^item> the same holds when \<open>undefined\<close> reaches only integer fields of 1, 2 or 4 bytes, which
    then store 0, and text fields, which store the empty text, and an inherited object
    reaches only byte-array fields and integer fields of 1, 2 or 4 bytes, which store
    zeros;
  \<^item> if \<open>undefined\<close> reaches some byte-array or 64-bit field (every other field as in the
    second case), \<open>to\<close> ends in a TypeError and returns no buffer.
\<close>

theorem C3_to_missing:
  assumes S: "struct nm (builtin_fields ks) opts = Inr S"
    and dist: "distinct (map fst ks)"
    and ok: "\<forall>(n, k) \<in> set ks. 0 < size_bytes (field_type k) \<and> n \<notin> hidden_names \<and> n \<noteq> ''__proto__''"
  shows "((\<forall>(n, k) \<in> set ks. conforms h k (get_prop values n)) \<longrightarrow>
            (\<exists>buf. struct_to S h values = Inr buf \<and> int (length buf) = size_total S)) \<and>
         ((\<forall>(n, k) \<in> set ks. accepts h k (get_prop values n)) \<longrightarrow>
            (\<exists>buf. struct_to S h values = Inr buf \<and> int (length buf) = size_total S \<and>
               (\<forall>i<length ks.
                  get_prop values (fst (ks ! i)) = Undefined \<or>
                  is_inherited (get_prop values (fst (ks ! i))) \<longrightarrow>
                  segment buf (nat (offset_at (builtin_fields ks) i))
                      (nat (size_bytes (field_type (snd (ks ! i))))) =
                    replicate (nat (size_bytes (field_type (snd (ks ! i))))) 0))) \<and>
         ((\<forall>(n, k) \<in> set ks. accepts h k (get_prop values n) \<or> get_prop values n = Undefined) \<and>
          (\<exists>(n, k) \<in> set ks. get_prop values n = Undefined \<and> \<not> coerces_undefined k) \<longrightarrow>
            struct_to S h values = Inl TypeError)"
proof -
  have pos: "\<forall>(n, k) \<in> set ks. 0 < size_bytes (field_type k)" using ok by auto
  have np: "''__proto__'' \<notin> fst ` set ks" using ok by force
  let ?buf = "record_image (littleEndian S) h values ks"
  have a: "\<exists>buf. struct_to S h values = Inr buf \<and> int (length buf) = size_total S \<and>
      (\<forall>i<length ks.
         get_prop values (fst (ks ! i)) = Undefined \<or>
         is_inherited (get_prop values (fst (ks ! i))) \<longrightarrow>
         segment buf (nat (offset_at (builtin_fields ks) i))
             (nat (size_bytes (field_type (snd (ks ! i))))) =
           replicate (nat (size_bytes (field_type (snd (ks ! i))))) 0)"
    if acc: "\<forall>(n, k) \<in> set ks. accepts h k (get_prop values n)"
  proof -
    have to: "struct_to S h values = Inr ?buf"
      using S dist pos acc np by (rule struct_to_builtin)
    have len: "int (length ?buf) = size_total S"
      using pos struct_size[OF S] by (simp add: length_record_image)
    have z: "segment ?buf (nat (offset_at (builtin_fields ks) i))
          (nat (size_bytes (field_type (snd (ks ! i))))) =
        replicate (nat (size_bytes (field_type (snd (ks ! i))))) 0"
      if i: "i < length ks"
        and v: "get_prop values (fst (ks ! i)) = Undefined \<or>
          is_inherited (get_prop values (fst (ks ! i)))" for i
    proof -
      have mem: "(fst (ks ! i), snd (ks ! i)) \<in> set ks" using i by simp
      have "accepts h (snd (ks ! i)) (get_prop values (fst (ks ! i)))"
        using acc mem by blast
      moreover have "0 < size_bytes (field_type (snd (ks ! i)))"
        using pos mem by blast
      ultimately have "slot_image (snd (ks ! i)) (littleEndian S)
            (content_of h (get_prop values (fst (ks ! i)))) =
          replicate (nat (size_bytes (field_type (snd (ks ! i))))) 0"
        using v by (intro slot_image_zero)
      then show ?thesis
        using segment_record_image[OF pos i, of "littleEndian S" h "values"] by simp
    qed
    show ?thesis
      using to len z by (intro exI[of _ ?buf] conjI allI impI)
  qed
  have a': "\<exists>buf. struct_to S h values = Inr buf \<and> int (length buf) = size_total S"
    if acc: "\<forall>(n, k) \<in> set ks. accepts h k (get_prop values n)"
    using a[OF acc] by blast
  have b: "\<forall>(n, k) \<in> set ks. accepts h k (get_prop values n)"
    if "\<forall>(n, k) \<in> set ks. conforms h k (get_prop values n)"
    using that by (auto intro: conforms_accepts)
  have c: "struct_to S h values = Inl TypeError"
    if "\<forall>(n, k) \<in> set ks. accepts h k (get_prop values n) \<or> get_prop values n = Undefined"
      and "\<exists>(n, k) \<in> set ks. get_prop values n = Undefined \<and> \<not> coerces_undefined k"
    using S dist pos that np by (rule struct_to_TypeError)
  show ?thesis
  proof (intro conjI impI)
    assume "\<forall>(n, k) \<in> set ks. conforms h k (get_prop values n)"
    then show "\<exists>buf. struct_to S h values = Inr buf \<and> int (length buf) = size_total S"
      using a' b by blast
  next
    assume "\<forall>(n, k) \<in> set ks. accepts h k (get_prop values n)"
    then show "\<exists>buf. struct_to S h values = Inr buf \<and> int (length buf) = size_total S \<and>
      (\<forall>i<length ks.
         get_prop values (fst (ks ! i)) = Undefined \<or>
         is_inherited (get_prop values (fst (ks ! i))) \<longrightarrow>
         segment buf (nat (offset_at (builtin_fields ks) i))
             (nat (size_bytes (field_type (snd (ks ! i))))) =
           replicate (nat (size_bytes (field_type (snd (ks ! i))))) 0)"
      by (rule a)
  next
    assume "(\<forall>(n, k) \<in> set ks. accepts h k (get_prop values n) \<or> get_prop values n = Undefined) \<and>
      (\<exists>(n, k) \<in> set ks. get_prop values n = Undefined \<and> \<not> coerces_undefined k)"
    then show "struct_to S h values = Inl TypeError"
      using c by blast
  qed
qed

text \<open>The sample record, complete, gives its 34 bytes; the test header without its three
  numbers gives zeros for them; without its \<open>magic\<close> bytes it gives a TypeError; the
  empty record gives the struct with the one field \<open>constructor: bytes(2)\<close> its two
  bytes.\<close>

theorem C3_to_missing_witness:
  "struct ''Sample'' (builtin_fields Sample_kinds) (Some True) = Inr Sample \<and>
   struct ''Header'' (builtin_fields Header_kinds) (Some True) = Inr Header \<and>
   struct ''Ctor'' (builtin_fields [(''constructor'', Bytes 2)]) None = Inr Ctor \<and>
   distinct (map fst Sample_kinds) \<and> distinct (map fst Header_kinds) \<and>
   list_all (\<lambda>(n, k). 0 < size_bytes (field_type k) \<and> n \<notin> hidden_names \<and> n \<noteq> ''__proto__'') Sample_kinds \<and>
   list_all (\<lambda>(n, k). 0 < size_bytes (field_type k) \<and> n \<notin> hidden_names \<and> n \<noteq> ''__proto__'') Header_kinds \<and>
   list_all (\<lambda>(n, k). conforms Sample_heap k (get_prop Sample_record n)) Sample_kinds \<and>
   size_total Sample = 34 \<and>
   (\<exists>buf. struct_to Sample Sample_heap Sample_record = Inr buf \<and> length buf = 34) \<and>
   list_all (\<lambda>(n, k). accepts Sample_heap k (get_prop [(''magic'', U8Array 0)] n)) Header_kinds \<and>
   (\<exists>buf. struct_to Header Sample_heap [(''magic'', U8Array 0)] = Inr buf \<and> length buf = 11 \<and>
          segment buf 7 4 = [0, 0, 0, 0]) \<and>
   get_prop [(''version'', Number 123), (''flags'', Number 7), (''count'', Number 12345)] ''magic''
     = Undefined \<and>
   struct_to Header Sample_heap
     [(''version'', Number 123), (''flags'', Number 7), (''count'', Number 12345)] = Inl TypeError \<and>
   get_prop [] ''constructor'' = Inherited ''constructor'' \<and>
   accepts [] (Bytes 2) (Inherited ''constructor'') \<and>
   (\<exists>buf. struct_to Ctor [] [] = Inr buf \<and> length buf = 2 \<and> segment buf 0 2 = [0, 0])"
proof -
  have d1: "distinct (map fst Sample_kinds)" by (simp add: Sample_kinds_def)
  have d2: "distinct (map fst Header_kinds)" by (simp add: Header_kinds_def)
  have d3: "distinct (map fst [(''constructor'', Bytes 2)])" by simp
  have p1: "\<forall>(n, k) \<in> set Sample_kinds.
      0 < size_bytes (field_type k) \<and> n \<notin> hidden_names \<and> n \<noteq> ''__proto__''"
    by (simp add: Sample_kinds_def hidden_names_def)
  have p2: "\<forall>(n, k) \<in> set Header_kinds.
      0 < size_bytes (field_type k) \<and> n \<notin> hidden_names \<and> n \<noteq> ''__proto__''"
    by (simp add: Header_kinds_def hidden_names_def)
  have p3: "\<forall>(n, k) \<in> set [(''constructor'', Bytes 2)].
      0 < size_bytes (field_type k) \<and> n \<notin> hidden_names \<and> n \<noteq> ''__proto__''"
    by (simp add: hidden_names_def)
  have s1: "size_total Sample = 34"
    using struct_size[OF Sample_struct] by (simp add: Sample_kinds_def)
  have s2: "size_total Header = 11"
    using struct_size[OF Header_struct] by (simp add: Header_kinds_def)
  have s3: "size_total Ctor = 2"
    using struct_size[OF Ctor_struct] by simp
  have a2: "\<forall>(n, k) \<in> set Header_kinds. accepts Sample_heap k (get_prop [(''magic'', U8Array 0)] n)"
    by (simp add: Header_kinds_def accepts_def get_prop_def Sample_heap_def
        Object_prototype_names_def)
  let ?r = "[(''version'', Number 123), (''flags'', Number 7), (''count'', Number 12345)]"
  have u: "get_prop ?r ''magic'' = Undefined"
    by (simp add: get_prop_def Object_prototype_names_def)
  have a3: "\<forall>(n, k) \<in> set Header_kinds. accepts Sample_heap k (get_prop ?r n) \<or> get_prop ?r n = Undefined"
    by (simp add: Header_kinds_def accepts_def get_prop_def Object_prototype_names_def)
  have b3: "\<exists>(n, k) \<in> set Header_kinds. get_prop ?r n = Undefined \<and> \<not> coerces_undefined k"
    by (simp add: Header_kinds_def u)
  have i: "get_prop [] ''constructor'' = Inherited ''constructor''"
    by (simp add: get_prop_def Object_prototype_names_def)
  have ai: "accepts [] (Bytes 2) (Inherited ''constructor'')"
    by (simp add: accepts_def)
  have a4: "\<forall>(n, k) \<in> set [(''constructor'', Bytes 2)]. accepts [] k (get_prop [] n)"
    using ai by (simp add: i)
  note c1 = C3_to_missing[OF Sample_struct d1 p1, of Sample_heap Sample_record]
  note c2 = C3_to_missing[OF Header_struct d2 p2, of Sample_heap "[(''magic'', U8Array 0)]"]
  note c3 = C3_to_missing[OF Header_struct d2 p2, of Sample_heap ?r]
  note c4 = C3_to_missing[OF Ctor_struct d3 p3, of "[]" "[]"]
  from mp[OF c1[THEN conjunct1] Sample_conforms] obtain buf1 where
    b1: "struct_to Sample Sample_heap Sample_record = Inr buf1" "int (length buf1) = size_total Sample"
    by (elim exE conjE)
  from b1(2) s1 have "length buf1 = 34" by simp
  with b1(1) have r1: "\<exists>buf. struct_to Sample Sample_heap Sample_record = Inr buf \<and> length buf = 34"
    by (intro exI[of _ buf1] conjI)
  from mp[OF c2[THEN conjunct2, THEN conjunct1] a2] obtain buf2 where
    b2: "struct_to Header Sample_heap [(''magic'', U8Array 0)] = Inr buf2"
      "int (length buf2) = size_total Header"
      "\<forall>i<length Header_kinds.
         get_prop [(''magic'', U8Array 0)] (fst (Header_kinds ! i)) = Undefined \<or>
         is_inherited (get_prop [(''magic'', U8Array 0)] (fst (Header_kinds ! i))) \<longrightarrow>
         segment buf2 (nat (offset_at (builtin_fields Header_kinds) i))
             (nat (size_bytes (field_type (snd (Header_kinds ! i))))) =
           replicate (nat (size_bytes (field_type (snd (Header_kinds ! i))))) 0"
    by (elim exE conjE)
  from b2(2) s2 have "length buf2 = 11" by simp
  moreover have "segment buf2 7 4 = [0, 0, 0, 0]"
    using b2(3)[rule_format, of 3]
    by (simp add: Header_kinds_def get_prop_def Object_prototype_names_def offset_at_def
        replicate_4_zero)
  ultimately have r2: "\<exists>buf. struct_to Header Sample_heap [(''magic'', U8Array 0)] = Inr buf \<and>
      length buf = 11 \<and> segment buf 7 4 = [0, 0, 0, 0]"
    using b2(1) by (intro exI[of _ buf2] conjI)
  have r3: "struct_to Header Sample_heap ?r = Inl TypeError"
    by (rule mp[OF c3[THEN conjunct2, THEN conjunct2] conjI[OF a3 b3]])
  from mp[OF c4[THEN conjunct2, THEN conjunct1] a4] obtain buf4 where
    b4: "struct_to Ctor [] [] = Inr buf4" "int (length buf4) = size_total Ctor"
      "\<forall>i<length [(''constructor'', Bytes 2)].
         get_prop [] (fst ([(''constructor'', Bytes 2)] ! i)) = Undefined \<or>
         is_inherited (get_prop [] (fst ([(''constructor'', Bytes 2)] ! i))) \<longrightarrow>
         segment buf4 (nat (offset_at (builtin_fields [(''constructor'', Bytes 2)]) i))
             (nat (size_bytes (field_type (snd ([(''constructor'', Bytes 2)] ! i))))) =
           replicate (nat (size_bytes (field_type (snd ([(''constructor'', Bytes 2)] ! i))))) 0"
    by (elim exE conjE)
  from b4(2) s3 have "length buf4 = 2" by simp
  moreover have "segment buf4 0 2 = [0, 0]"
    using b4(3)[rule_format, of 0] by (simp add: i numeral_2_eq_2)
  ultimately have r4: "\<exists>buf. struct_to Ctor [] [] = Inr buf \<and> length buf = 2 \<and>
      segment buf 0 2 = [0, 0]"
    using b4(1) by (intro exI[of _ buf4] conjI)
  have l1: "list_all (\<lambda>(n, k). 0 < size_bytes (field_type k) \<and> n \<notin> hidden_names \<and> n \<noteq> ''__proto__'') Sample_kinds"
    using p1 by (simp add: list_all_iff)
  have l2: "list_all (\<lambda>(n, k). 0 < size_bytes (field_type k) \<and> n \<notin> hidden_names \<and> n \<noteq> ''__proto__'') Header_kinds"
    using p2 by (simp add: list_all_iff)
  have l3: "list_all (\<lambda>(n, k). conforms Sample_heap k (get_prop Sample_record n)) Sample_kinds"
    using Sample_conforms by (simp add: list_all_iff)
  have l4: "list_all (\<lambda>(n, k). accepts Sample_heap k (get_prop [(''magic'', U8Array 0)] n)) Header_kinds"
    using a2 by (simp add: list_all_iff)
  from Sample_struct Header_struct Ctor_struct d1 d2 l1 l2 l3 s1 r1 l4 r2 u r3 i ai r4 show ?thesis
    by (simp only: simp_thms)
qed

section \<open>What a reader reads and a writer writes (C4)\<close>

text \<open>Inside its range a writer changes the bytes of its own slot only.\<close>

lemma overwrite_nth_outside:
  "i + length ys \<le> length xs \<Longrightarrow> j < i \<or> i + length ys \<le> j \<Longrightarrow>
   overwrite xs i ys ! j = xs ! j"
  by (auto simp: overwrite_def nth_append)

lemma write_builtin_frame:
  assumes "wf_view dv" "accepts h k v" "0 < size_bytes (field_type k)" "0 \<le> off"
    "off + size_bytes (field_type k) \<le> int (byteLength dv)"
    "write_f (field_type k) h dv off v le = Inr dv'"
    "j < byteOffset dv + nat off \<or> byteOffset dv + nat off + nat (size_bytes (field_type k)) \<le> j"
  shows "buffer dv' ! j = buffer dv ! j"
proof -
  let ?W = "written k le (content_of h v)"
  let ?p = "byteOffset dv + nat off"
  have lw: "length ?W \<le> nat (size_bytes (field_type k))"
    using assms(3) by (rule length_written)
  then have fit: "?p + length ?W \<le> length (buffer dv)"
    using assms by (simp add: wf_view_def)
  have "buffer dv' = overwrite (buffer dv) ?p ?W"
    using write_builtin[OF assms(1-5), of le] assms(6) by auto
  moreover have "j < ?p \<or> ?p + length ?W \<le> j"
    using assms(7) lw by auto
  ultimately show ?thesis
    using fit by (simp add: overwrite_nth_outside)
qed

text \<open>Every reader but \<open>string\<close> depends on the bytes of its slot in the view only.\<close>

lemma parse_builtin_local:
  assumes "wf_view dv" "wf_view dv'" "0 \<le> size_bytes (field_type k)" "0 \<le> off"
    "off + size_bytes (field_type k) \<le> int (byteLength dv)"
    "off + size_bytes (field_type k) \<le> int (byteLength dv')"
    "\<forall>n. k \<noteq> String n"
    "segment (buffer dv) (byteOffset dv + nat off) (nat (size_bytes (field_type k))) =
     segment (buffer dv') (byteOffset dv' + nat off) (nat (size_bytes (field_type k)))"
  shows "parse (field_type k) h dv off le = parse (field_type k) h dv' off le"
proof -
  have "read_base k dv = byteOffset dv" "read_base k dv' = byteOffset dv'"
    using assms(7) by (cases k; simp)+
  then show ?thesis
    using parse_builtin[OF assms(1,3,4,5), of h le] parse_builtin[OF assms(2,3,4,6), of h le]
      assms(8)
    by simp
qed

lemma Code2_struct: "struct ''Code2'' (builtin_fields [(''code'', String 2)]) None = Inr Code2"
  unfolding Code2_def by (rule struct_projr)

lemma Raw2_struct: "struct ''Raw2'' (builtin_fields [(''code'', Bytes 2)]) None = Inr Raw2"
  unfolding Raw2_def by (rule struct_projr)

text \<open>
  Claim C4 holds for every reader that goes through the \<open>DataView\<close>, and for every writer.
  It fails for the reader of \<open>string\<close>, which builds its array on \<open>buffer.buffer\<close>, the
  underlying ArrayBuffer, with the field's offset counted from the start of that buffer.
  On the \<open>Uint8Array\<close> that shows the last two bytes of the buffer \<open>41 42 43 44\<close>, the byte
  array field reads \<open>43 44\<close>, the two bytes of the view, and the text field reads \<open>41 42\<close>,
  two bytes that are not in the view at all.
\<close>

theorem C4_string_reads_outside_view:
  "wf_source (Uint8Array [0x41, 0x42, 0x43, 0x44] 2 2) \<and>
   segment (buffer (view_of (Uint8Array [0x41, 0x42, 0x43, 0x44] 2 2)))
           (byteOffset (view_of (Uint8Array [0x41, 0x42, 0x43, 0x44] 2 2)) + 0) 2 = [0x43, 0x44] \<and>
   struct_from Raw2 [] (Uint8Array [0x41, 0x42, 0x43, 0x44] 2 2) 0 =
     Inr (\<lparr>props = [(''code'', U8Array 0)], dollar_struct = Raw2\<rparr>, [[0x43, 0x44]]) \<and>
   struct_from Code2 [] (Uint8Array [0x41, 0x42, 0x43, 0x44] 2 2) 0 =
     Inr (\<lparr>props = [(''code'', Str [0x41, 0x42])], dollar_struct = Code2\<rparr>, []) \<and>
   TextDecoder_decode [0x43, 0x44] = [0x43, 0x44] \<and>
   [0x41, 0x42] \<noteq> [0x43, 0x44 :: 16 word]"
proof -
  let ?src = "Uint8Array [0x41, 0x42, 0x43, 0x44] 2 2"
  have wf: "wf_source ?src"
    by (simp add: wf_source_def wf_view_def view_of_def)
  have s1: "size_total Raw2 = 2" using struct_size[OF Raw2_struct] by simp
  have s2: "size_total Code2 = 2" using struct_size[OF Code2_struct] by simp
  have "struct_from Raw2 [] ?src 0 =
      Inr (\<lparr>props = fst (parse_all (littleEndian Raw2) (view_of ?src) 0 [(''code'', Bytes 2)] 0 []),
             dollar_struct = Raw2\<rparr>,
           snd (parse_all (littleEndian Raw2) (view_of ?src) 0 [(''code'', Bytes 2)] 0 []))"
    using wf s1
    by (intro struct_from_builtin[OF Raw2_struct]) (simp_all add: hidden_names_def view_of_def)
  then have a: "struct_from Raw2 [] ?src 0 =
      Inr (\<lparr>props = [(''code'', U8Array 0)], dollar_struct = Raw2\<rparr>, [[0x43, 0x44]])"
    by (simp add: view_of_def parsed_def segment_def)
  have d: "TextDecoder_decode [0x41, 0x42] = [0x41, 0x42]"
    by (simp add: decode_ascii)
  have d': "TextDecoder_decode [0x43, 0x44] = [0x43, 0x44]"
    by (simp add: decode_ascii)
  have "struct_from Code2 [] ?src 0 =
      Inr (\<lparr>props = fst (parse_all (littleEndian Code2) (view_of ?src) 0 [(''code'', String 2)] 0 []),
             dollar_struct = Code2\<rparr>,
           snd (parse_all (littleEndian Code2) (view_of ?src) 0 [(''code'', String 2)] 0 []))"
    using wf s2
    by (intro struct_from_builtin[OF Code2_struct]) (simp_all add: hidden_names_def view_of_def)
  then have b: "struct_from Code2 [] ?src 0 =
      Inr (\<lparr>props = [(''code'', Str [0x41, 0x42])], dollar_struct = Code2\<rparr>, [])"
    by (simp add: view_of_def parsed_def segment_def d)
  have c: "segment (buffer (view_of ?src)) (byteOffset (view_of ?src) + 0) 2 = [0x43, 0x44]"
    by (simp add: view_of_def segment_def)
  from wf c a b d' show ?thesis by simp
qed

section \<open>Integers out of range (C10)\<close>

lemma write_then_parse:
  assumes "wf_view dv" "accepts h k v" "0 < size_bytes (field_type k)" "0 \<le> off"
    "off + size_bytes (field_type k) \<le> int (byteLength dv)"
    "\<forall>n. k \<noteq> String n"
    "length (written k le (content_of h v)) = nat (size_bytes (field_type k))"
  shows "\<exists>dv'. write_f (field_type k) h dv off v le = Inr dv' \<and>
           segment (buffer dv') (byteOffset dv + nat off) (nat (size_bytes (field_type k))) =
             written k le (content_of h v) \<and>
           parse (field_type k) h dv' off le = Inr (parsed k le h (written k le (content_of h v)))"
proof -
  let ?W = "written k le (content_of h v)"
  let ?p = "byteOffset dv + nat off"
  let ?dv' = "dv\<lparr>buffer := overwrite (buffer dv) ?p ?W\<rparr>"
  have fit: "?p + length ?W \<le> length (buffer dv)"
    using assms by (simp add: wf_view_def)
  have w: "write_f (field_type k) h dv off v le = Inr ?dv'"
    using assms(1-5) by (rule write_builtin)
  have wf': "wf_view ?dv'"
    using assms(1) fit by (simp add: wf_view_def length_overwrite)
  have seg: "segment (buffer ?dv') ?p (nat (size_bytes (field_type k))) = ?W"
    using fit assms(7) segment_overwrite_same[of ?p ?W "buffer dv"] by simp
  have rb: "read_base k ?dv' = byteOffset dv"
    using assms(6) by (cases k) simp_all
  have "parse (field_type k) h ?dv' off le =
      Inr (parsed k le h (segment (buffer ?dv') (read_base k ?dv' + nat off)
                            (nat (size_bytes (field_type k)))))"
    using wf' assms(3,4,5) by (intro parse_builtin) auto
  then have "parse (field_type k) h ?dv' off le = Inr (parsed k le h ?W)"
    using seg rb by simp
  with w seg show ?thesis by auto
qed

lemma small_int_cases:
  assumes "small_int k = Some (w, sg)"
  obtains "k = Uint8" "w = 1" "\<not> sg" | "k = Uint16" "w = 2" "\<not> sg" | "k = Uint32" "w = 4" "\<not> sg"
    | "k = Int8" "w = 1" "sg" | "k = Int16" "w = 2" "sg" | "k = Int32" "w = 4" "sg"
  using assms by (cases k) auto

lemma le_to_nat_wrap: "int (le_to_nat (nat_to_le w (ToUintN w v))) = v mod 2 ^ (8 * w)"
  by (rule unsigned_round_trip)

lemma le_to_nat_wrap_nat: "le_to_nat (nat_to_le w (ToUintN w v)) = nat (v mod 2 ^ (8 * w))"
  using le_to_nat_wrap[of w v] by simp

lemma small_int_written:
  assumes "small_int k = Some (w, sg)"
  shows "written k le (CNumber v) = endian le (nat_to_le w (nat (v mod 2 ^ (8 * w)))) \<and>
         size_bytes (field_type k) = int w \<and> 0 < w \<and> (\<forall>n. k \<noteq> String n) \<and>
         decode_value k le (written k le (CNumber v)) =
           CNumber (if sg then to_signed w (nat (v mod 2 ^ (8 * w))) else v mod 2 ^ (8 * w))"
  using assms
proof (cases rule: small_int_cases)
  case 1
  then show ?thesis
    using le_to_nat_wrap[of 1 v] by (simp add: number_of_def endian_def ToUintN_def)
next
  case 2
  then show ?thesis
    using le_to_nat_wrap[of 2 v] by (simp add: number_of_def ToUintN_def)
next
  case 3
  then show ?thesis
    using le_to_nat_wrap[of 4 v] by (simp add: number_of_def ToUintN_def)
next
  case 4
  then show ?thesis
    using le_to_nat_wrap_nat[of 1 v] by (simp add: number_of_def endian_def ToUintN_def)
next
  case 5
  then show ?thesis
    using le_to_nat_wrap_nat[of 2 v] by (simp add: number_of_def ToUintN_def)
next
  case 6
  then show ?thesis
    using le_to_nat_wrap_nat[of 4 v] by (simp add: number_of_def ToUintN_def)
qed

lemma Simple_to_wrapped:
  "struct_to Simple [] [(''value'', Number 4294967301)] = Inr [5, 0, 0, 0]"
proof -
  have "struct_to Simple [] [(''value'', Number 4294967301)] =
      Inr (record_image (littleEndian Simple) [] [(''value'', Number 4294967301)] [(''value'', Uint32)])"
    by (rule struct_to_builtin[OF Simple_struct]) (simp_all add: accepts_def get_prop_def)
  moreover have "nat_to_le 4 5 = [5, 0, 0, 0]"
    by code_simp
  ultimately show ?thesis
    by (simp add: slot_image_def get_prop_def content_of_def number_of_def ToUintN_def
        endian_def struct_Inr[THEN iffD1, OF Simple_struct])
qed

lemma Simple_from_wrapped:
  "struct_from Simple [] (ArrayBuffer [5, 0, 0, 0]) 0 =
     Inr (\<lparr>props = [(''value'', Number 5)], dollar_struct = Simple\<rparr>, [])"
proof -
  let ?src = "ArrayBuffer [5, 0, 0, 0]"
  have sz: "size_total Simple = 4" using struct_size[OF Simple_struct] by simp
  have "struct_from Simple [] ?src 0 =
      Inr (\<lparr>props = fst (parse_all (littleEndian Simple) (view_of ?src) 0 [(''value'', Uint32)] 0 []),
             dollar_struct = Simple\<rparr>,
           snd (parse_all (littleEndian Simple) (view_of ?src) 0 [(''value'', Uint32)] 0 []))"
    using sz
    by (intro struct_from_builtin[OF Simple_struct])
       (simp_all add: hidden_names_def view_of_def wf_source_def wf_view_def)
  then show ?thesis
    by (simp add: view_of_def parsed_def segment_def endian_def
        struct_Inr[THEN iffD1, OF Simple_struct])
qed

text \<open>
  Claim C10. For an integer field of width w in 1, 2, 4, signed or not, writing any number
  into a slot inside the view does not fail; the slot then holds the bytes of the value
  modulo 2^(8w), in the order the flag asks for, and reading the slot gives that reduced
  value, read as two's complement for the signed types. So an out-of-range value is changed
  by the round trip without any error: \<open>2^32 + 5\<close> in the \<open>uint32\<close> struct of the tests
  comes back as 5.
\<close>

theorem C10_integer_wraps:
  assumes "small_int k = Some (w, sg)" and "wf_view dv" and "0 \<le> off"
    and "off + int w \<le> int (byteLength dv)"
  shows "(\<exists>dv'. write_f (field_type k) h dv off (Number v) le = Inr dv' \<and>
            segment (buffer dv') (byteOffset dv + nat off) w =
              endian le (nat_to_le w (nat (v mod 2 ^ (8 * w)))) \<and>
            parse (field_type k) h dv' off le =
              Inr (Number (if sg then to_signed w (nat (v mod 2 ^ (8 * w)))
                           else v mod 2 ^ (8 * w)), h)) \<and>
         struct_to Simple [] [(''value'', Number 4294967301)] = Inr [5, 0, 0, 0] \<and>
         struct_from Simple [] (ArrayBuffer [5, 0, 0, 0]) 0 =
           Inr (\<lparr>props = [(''value'', Number 5)], dollar_struct = Simple\<rparr>, [])"
proof -
  note sw = small_int_written[OF assms(1), of le v]
  have acc: "accepts h k (Number v)"
    using assms(1) by (cases rule: small_int_cases) (simp_all add: accepts_def)
  have c: "content_of h (Number v) = CNumber v" by (simp add: content_of_def)
  have len: "length (written k le (content_of h (Number v))) = nat (size_bytes (field_type k))"
    using sw c by simp
  have "\<exists>dv'. write_f (field_type k) h dv off (Number v) le = Inr dv' \<and>
           segment (buffer dv') (byteOffset dv + nat off) (nat (size_bytes (field_type k))) =
             written k le (content_of h (Number v)) \<and>
           parse (field_type k) h dv' off le =
             Inr (parsed k le h (written k le (content_of h (Number v))))"
    using assms(2) acc _ assms(3) _ _ len
  proof (rule write_then_parse)
    show "0 < size_bytes (field_type k)" using sw by simp
    show "off + size_bytes (field_type k) \<le> int (byteLength dv)" using sw assms(4) by simp
    show "\<forall>n. k \<noteq> String n" using sw by simp
  qed
  then obtain dv' where
    w: "write_f (field_type k) h dv off (Number v) le = Inr dv'" and
    s: "segment (buffer dv') (byteOffset dv + nat off) (nat (size_bytes (field_type k))) =
          written k le (CNumber v)" and
    p: "parse (field_type k) h dv' off le = Inr (parsed k le h (written k le (CNumber v)))"
    using c by auto
  have dec: "decode_value k le (written k le (CNumber v)) =
      CNumber (if sg then to_signed w (nat (v mod 2 ^ (8 * w))) else v mod 2 ^ (8 * w))"
    using sw by (elim conjE)
  have "parsed k le h (written k le (CNumber v)) =
      (Number (if sg then to_signed w (nat (v mod 2 ^ (8 * w))) else v mod 2 ^ (8 * w)), h)"
    unfolding parsed_def dec by simp
  with w s p sw have "\<exists>dv'. write_f (field_type k) h dv off (Number v) le = Inr dv' \<and>
            segment (buffer dv') (byteOffset dv + nat off) w =
              endian le (nat_to_le w (nat (v mod 2 ^ (8 * w)))) \<and>
            parse (field_type k) h dv' off le =
              Inr (Number (if sg then to_signed w (nat (v mod 2 ^ (8 * w)))
                           else v mod 2 ^ (8 * w)), h)"
    by (intro exI[of _ dv']) simp
  with Simple_to_wrapped Simple_from_wrapped show ?thesis by simp
qed

text \<open>\<open>int8\<close>: 200 is stored as the byte C8 and read back as -56.\<close>

theorem C10_integer_wraps_witness:
  "small_int Int8 = Some (1, True) \<and>
   wf_view \<lparr>buffer = [0], byteOffset = 0, byteLength = 1\<rparr> \<and>
   (\<exists>dv'. write_f (field_type Int8) [] \<lparr>buffer = [0], byteOffset = 0, byteLength = 1\<rparr> 0
             (Number 200) False = Inr dv' \<and>
          buffer dv' = [0xC8] \<and>
          parse (field_type Int8) [] dv' 0 False = Inr (Number (- 56), []))"
proof -
  let ?dv = "\<lparr>buffer = [0::byte], byteOffset = 0, byteLength = 1\<rparr>"
  have a: "small_int Int8 = Some (1, True)" by simp
  have b: "wf_view ?dv" by (simp add: wf_view_def)
  from C10_integer_wraps[OF a b, of 0 "[]" 200 False]
  obtain dv' where
    w: "write_f (field_type Int8) [] ?dv 0 (Number 200) False = Inr dv'" and
    s: "segment (buffer dv') (byteOffset ?dv + nat 0) 1 =
          endian False (nat_to_le 1 (nat (200 mod 2 ^ (8 * 1))))" and
    p: "parse (field_type Int8) [] dv' 0 False =
          Inr (Number (if True then to_signed 1 (nat (200 mod 2 ^ (8 * 1)))
                       else 200 mod 2 ^ (8 * 1)), [])"
    by auto
  have "length (buffer dv') = 1"
    using w by (auto simp: int8_def number_write_def SetViewValue_def overwrite_def
        split: if_splits)
  then obtain x where x: "buffer dv' = [x]"
    by (cases "buffer dv'") auto
  with s have bf: "buffer dv' = [0xC8]"
    by (simp add: segment_def endian_def)
  have "to_signed 1 (nat (200 mod 2 ^ (8 * 1))) = - 56"
    by (simp add: to_signed_def)
  with p have "parse (field_type Int8) [] dv' 0 False = Inr (Number (- 56), [])"
    by simp
  with a b w bf show ?thesis by blast
qed

section \<open>Endianness (C8)\<close>

lemma multi_byte_image:
  "multi_byte k = Some w \<Longrightarrow>
   slot_image k le c = endian le (nat_to_le w (ToUintN w (number_of c)))"
  by (cases k) (simp_all add: slot_image_def)

lemma flag_ignored_image: "multi_byte k = None \<Longrightarrow> slot_image k True c = slot_image k False c"
  by (cases k) (simp_all add: slot_image_def)

lemma flag_ignored_write:
  "multi_byte k = None \<Longrightarrow>
   write_f (field_type k) h dv off v True = write_f (field_type k) h dv off v False"
  by (cases k)
     (simp_all add: bytes_def bytes_write_def uint8_def int8_def cstring_def cstring_write_def
        string_ft_def string_write_def)

lemma flag_ignored_parse:
  "multi_byte k = None \<Longrightarrow>
   parse (field_type k) h dv off True = parse (field_type k) h dv off False"
  by (cases k)
     (simp_all add: bytes_def bytes_parse_def uint8_def int8_def cstring_def cstring_parse_def
        string_ft_def string_parse_def)

lemma bytes_of_12345: "nat_to_le 4 (ToUintN 4 12345) = [0x39, 0x30, 0, 0]"
  by code_simp

lemma le_to_nat_less: "le_to_nat bs < 256 ^ length bs"
proof (induction bs)
  case Nil
  then show ?case by simp
next
  case (Cons b bs)
  have "unat b < 2 ^ LENGTH(8)" by (rule unsigned_less)
  then have "unat b < 256" by simp
  with Cons show ?case by simp
qed

lemma ToUintN_to_signed:
  assumes "n < 256 ^ w"
  shows "ToUintN w (to_signed w n) = n"
proof -
  have M: "(2::int) ^ (8 * w) = int (256 ^ w)" by (simp add: power_mult)
  have lt: "int n < 2 ^ (8 * w)" using assms unfolding M by simp
  show ?thesis
  proof (cases "2 ^ (8 * w - 1) \<le> n")
    case True
    have "(int n - 2 ^ (8 * w)) mod 2 ^ (8 * w) = int n mod 2 ^ (8 * w)"
      by (metis minus_mod_self2)
    also have "\<dots> = int n" using lt by simp
    finally show ?thesis using True by (simp add: to_signed_def ToUintN_def)
  next
    case False
    then show ?thesis using lt by (simp add: to_signed_def ToUintN_def)
  qed
qed

lemma ToUintN_unsigned: "n < 256 ^ w \<Longrightarrow> ToUintN w (int n) = n"
  using ToUintN_in_range[of "int n" w] by simp

lemma multi_byte_size: "multi_byte k = Some w \<Longrightarrow> size_bytes (field_type k) = int w"
  by (cases k) simp_all

lemma multi_byte_read_base: "multi_byte k = Some w \<Longrightarrow> read_base k dv = byteOffset dv"
  by (cases k) simp_all

lemma multi_byte_decode:
  assumes "multi_byte k = Some w" "length bs = w"
  shows "ToUintN w (number_of (decode_value k le bs)) = le_to_nat (if le then bs else rev bs)"
proof -
  have "le_to_nat (endian le bs) < 256 ^ w"
    using le_to_nat_less[of "endian le bs"] assms(2) by simp
  then have "ToUintN w (int (le_to_nat (endian le bs))) = le_to_nat (endian le bs)"
    and "ToUintN w (to_signed w (le_to_nat (endian le bs))) = le_to_nat (endian le bs)"
    by (simp_all add: ToUintN_unsigned ToUintN_to_signed)
  then show ?thesis
    using assms(1) by (cases k) (auto simp: number_of_def endian_def)
qed

lemma offset_at_bounds:
  assumes pos: "\<forall>s \<in> set (sizes flds). 0 < s" and i: "i < length flds"
  shows "0 \<le> offset_at flds i" and "offset_at flds i + sizes flds ! i \<le> sum_list (sizes flds)"
proof -
  show "0 \<le> offset_at flds i"
  proof (cases i)
    case 0
    then show ?thesis by simp
  next
    case (Suc j)
    have "offset_at flds 0 < offset_at flds i"
      using pos Suc i by (intro offset_at_mono) simp_all
    then show ?thesis by simp
  qed
  have "offset_at flds (Suc i) \<le> offset_at flds (length flds)"
  proof (cases "Suc i = length flds")
    case True
    then show ?thesis by simp
  next
    case False
    then have "offset_at flds (Suc i) < offset_at flds (length flds)"
      using pos i by (intro offset_at_mono) simp_all
    then show ?thesis by simp
  qed
  then show "offset_at flds i + sizes flds ! i \<le> sum_list (sizes flds)"
    using i by (simp add: offset_at_Suc offset_at_all)
qed

lemma HeaderBE_struct: "struct ''Header'' (builtin_fields Header_kinds) None = Inr HeaderBE"
  unfolding HeaderBE_def by (rule struct_projr)

text \<open>
  Claim C8. For a struct of built-in fields (the fields in the order of enumeration,
  distinct names, none of them \<open>__proto__\<close> or one of the three hidden method names,
  positive sizes):
  \<^item> the flag of the struct is the option given at construction, false when absent;
  \<^item> \<open>to\<close>, on a record of values of the fields' types, returns a buffer in which a
    \<open>uint32\<close> field holding 12345, the struct being little-endian, has the bytes
    39 30 00 00 in its slot; in which every integer field of 2, 4 or 8 bytes has the
    little-endian bytes of its value in its slot when the struct's flag is set and the same
    bytes reversed when it is not; and in which every other field (one-byte integer, text,
    byte array) has the same slot whatever the flag;
  \<^item> \<open>from\<close>, on a source that holds the struct at the given offset, returns a record in
    which every integer field of 2, 4 or 8 bytes is the number whose little-endian bytes
    are the bytes of its slot when the struct's flag is set, and those bytes reversed
    when it is not (as an unsigned number, or its two's complement reading for the
    signed types): the one flag of the struct decides for all of them, in both directions;
  \<^item> the readers and writers of the one-byte, text and byte-array types ignore the flag
    handed to them.
\<close>

theorem C8_endianness:
  assumes S: "struct nm (builtin_fields ks) opts = Inr S"
    and dist: "distinct (map fst ks)"
    and enum: "enumeration_of ks = ks"
    and ok: "\<forall>(n, k) \<in> set ks.
               0 < size_bytes (field_type k) \<and> n \<notin> hidden_names \<and> n \<noteq> ''__proto__''"
  shows "littleEndian S = (opts = Some True) \<and>
         ((\<forall>(n, k) \<in> set ks. conforms h k (get_prop r n)) \<longrightarrow>
          (\<exists>buf. struct_to S h r = Inr buf \<and>
            (\<forall>i<length ks.
               (snd (ks ! i) = Uint32 \<and> littleEndian S \<and>
                get_prop r (fst (ks ! i)) = Number 12345 \<longrightarrow>
                  segment buf (nat (offset_at (builtin_fields ks) i)) 4 = [0x39, 0x30, 0, 0]) \<and>
               (\<forall>w. multi_byte (snd (ks ! i)) = Some w \<longrightarrow>
                  segment buf (nat (offset_at (builtin_fields ks) i)) w =
                    (if littleEndian S
                     then nat_to_le w (ToUintN w (number_of (content_of h (get_prop r (fst (ks ! i))))))
                     else rev (nat_to_le w (ToUintN w (number_of (content_of h (get_prop r (fst (ks ! i))))))))) \<and>
               (multi_byte (snd (ks ! i)) = None \<longrightarrow>
                  segment buf (nat (offset_at (builtin_fields ks) i))
                      (nat (size_bytes (field_type (snd (ks ! i))))) =
                    slot_image (snd (ks ! i)) True (content_of h (get_prop r (fst (ks ! i)))) \<and>
                  segment buf (nat (offset_at (builtin_fields ks) i))
                      (nat (size_bytes (field_type (snd (ks ! i))))) =
                    slot_image (snd (ks ! i)) False (content_of h (get_prop r (fst (ks ! i)))))))) \<and>
         (wf_source src \<and> 0 \<le> offset \<and> offset + size_total S \<le> int (byteLength (view_of src)) \<longrightarrow>
          (\<exists>inst h'. struct_from S h src offset = Inr (inst, h') \<and>
            (\<forall>i<length ks. \<forall>w. multi_byte (snd (ks ! i)) = Some w \<longrightarrow>
               content_of h' (get_prop (props inst) (fst (ks ! i))) =
                 decode_value (snd (ks ! i)) (littleEndian S)
                   (segment (buffer (view_of src))
                      (byteOffset (view_of src) + nat (offset + offset_at (builtin_fields ks) i)) w) \<and>
               ToUintN w (number_of (content_of h' (get_prop (props inst) (fst (ks ! i))))) =
                 le_to_nat
                   (if littleEndian S
                    then segment (buffer (view_of src))
                           (byteOffset (view_of src) + nat (offset + offset_at (builtin_fields ks) i)) w
                    else rev (segment (buffer (view_of src))
                           (byteOffset (view_of src) + nat (offset + offset_at (builtin_fields ks) i)) w))))) \<and>
         (\<forall>k h dv off v. multi_byte k = None \<longrightarrow>
            write_f (field_type k) h dv off v True = write_f (field_type k) h dv off v False \<and>
            parse (field_type k) h dv off True = parse (field_type k) h dv off False)"
proof (intro conjI)
  show "littleEndian S = (opts = Some True)"
    using S by (cases opts) (auto simp: struct_Inr)
next
  have pos: "\<forall>(n, k) \<in> set ks. 0 < size_bytes (field_type k)" using ok by auto
  have np: "''__proto__'' \<notin> fst ` set ks" using ok by force
  let ?le = "littleEndian S"
  let ?buf = "record_image ?le h r ks"
  show "(\<forall>(n, k) \<in> set ks. conforms h k (get_prop r n)) \<longrightarrow>
          (\<exists>buf. struct_to S h r = Inr buf \<and>
            (\<forall>i<length ks.
               (snd (ks ! i) = Uint32 \<and> littleEndian S \<and>
                get_prop r (fst (ks ! i)) = Number 12345 \<longrightarrow>
                  segment buf (nat (offset_at (builtin_fields ks) i)) 4 = [0x39, 0x30, 0, 0]) \<and>
               (\<forall>w. multi_byte (snd (ks ! i)) = Some w \<longrightarrow>
                  segment buf (nat (offset_at (builtin_fields ks) i)) w =
                    (if littleEndian S
                     then nat_to_le w (ToUintN w (number_of (content_of h (get_prop r (fst (ks ! i))))))
                     else rev (nat_to_le w (ToUintN w (number_of (content_of h (get_prop r (fst (ks ! i))))))))) \<and>
               (multi_byte (snd (ks ! i)) = None \<longrightarrow>
                  segment buf (nat (offset_at (builtin_fields ks) i))
                      (nat (size_bytes (field_type (snd (ks ! i))))) =
                    slot_image (snd (ks ! i)) True (content_of h (get_prop r (fst (ks ! i)))) \<and>
                  segment buf (nat (offset_at (builtin_fields ks) i))
                      (nat (size_bytes (field_type (snd (ks ! i))))) =
                    slot_image (snd (ks ! i)) False (content_of h (get_prop r (fst (ks ! i)))))))"
  proof
    assume conf: "\<forall>(n, k) \<in> set ks. conforms h k (get_prop r n)"
    have acc: "\<forall>(n, k) \<in> set ks. accepts h k (get_prop r n)"
      using conf by (auto intro: conforms_accepts)
    have to: "struct_to S h r = Inr ?buf"
      using S dist pos acc np by (rule struct_to_builtin)
    have slot: "segment ?buf (nat (offset_at (builtin_fields ks) i))
          (nat (size_bytes (field_type (snd (ks ! i))))) =
        slot_image (snd (ks ! i)) ?le (content_of h (get_prop r (fst (ks ! i))))"
      if "i < length ks" for i
      using pos that by (rule segment_record_image)
    have mb: "segment ?buf (nat (offset_at (builtin_fields ks) i)) w =
        endian ?le (nat_to_le w (ToUintN w (number_of (content_of h (get_prop r (fst (ks ! i)))))))"
      if i: "i < length ks" and m: "multi_byte (snd (ks ! i)) = Some w" for i w
    proof -
      have "nat (size_bytes (field_type (snd (ks ! i)))) = w"
        using m by (simp add: multi_byte_size)
      then show ?thesis
        using slot[OF i] multi_byte_image[OF m] by simp
    qed
    have u32: "segment ?buf (nat (offset_at (builtin_fields ks) i)) 4 = [0x39, 0x30, 0, 0]"
      if i: "i < length ks" and k: "snd (ks ! i) = Uint32" and le: "?le"
        and v: "get_prop r (fst (ks ! i)) = Number 12345" for i
    proof -
      have "multi_byte (snd (ks ! i)) = Some 4" using k by simp
      from mb[OF i this] le v show ?thesis
        by (simp add: endian_def content_of_def number_of_def bytes_of_12345)
    qed
    have fi: "segment ?buf (nat (offset_at (builtin_fields ks) i))
          (nat (size_bytes (field_type (snd (ks ! i))))) =
        slot_image (snd (ks ! i)) b (content_of h (get_prop r (fst (ks ! i))))"
      if i: "i < length ks" and m: "multi_byte (snd (ks ! i)) = None" for i b
      using slot[OF i] flag_ignored_image[OF m] by (cases b; cases ?le) simp_all
    show "\<exists>buf. struct_to S h r = Inr buf \<and>
            (\<forall>i<length ks.
               (snd (ks ! i) = Uint32 \<and> littleEndian S \<and>
                get_prop r (fst (ks ! i)) = Number 12345 \<longrightarrow>
                  segment buf (nat (offset_at (builtin_fields ks) i)) 4 = [0x39, 0x30, 0, 0]) \<and>
               (\<forall>w. multi_byte (snd (ks ! i)) = Some w \<longrightarrow>
                  segment buf (nat (offset_at (builtin_fields ks) i)) w =
                    (if littleEndian S
                     then nat_to_le w (ToUintN w (number_of (content_of h (get_prop r (fst (ks ! i))))))
                     else rev (nat_to_le w (ToUintN w (number_of (content_of h (get_prop r (fst (ks ! i))))))))) \<and>
               (multi_byte (snd (ks ! i)) = None \<longrightarrow>
                  segment buf (nat (offset_at (builtin_fields ks) i))
                      (nat (size_bytes (field_type (snd (ks ! i))))) =
                    slot_image (snd (ks ! i)) True (content_of h (get_prop r (fst (ks ! i)))) \<and>
                  segment buf (nat (offset_at (builtin_fields ks) i))
                      (nat (size_bytes (field_type (snd (ks ! i))))) =
                    slot_image (snd (ks ! i)) False (content_of h (get_prop r (fst (ks ! i))))))"
    proof (intro exI[of _ ?buf] conjI allI impI)
      show "struct_to S h r = Inr ?buf" by (rule to)
    next
      fix i assume "i < length ks"
        and "snd (ks ! i) = Uint32 \<and> littleEndian S \<and> get_prop r (fst (ks ! i)) = Number 12345"
      then show "segment ?buf (nat (offset_at (builtin_fields ks) i)) 4 = [0x39, 0x30, 0, 0]"
        using u32 by blast
    next
      fix i w assume "i < length ks" and "multi_byte (snd (ks ! i)) = Some w"
      then show "segment ?buf (nat (offset_at (builtin_fields ks) i)) w =
          (if littleEndian S
           then nat_to_le w (ToUintN w (number_of (content_of h (get_prop r (fst (ks ! i))))))
           else rev (nat_to_le w (ToUintN w (number_of (content_of h (get_prop r (fst (ks ! i))))))))"
        using mb[of i w] by (simp add: endian_def)
    next
      fix i assume "i < length ks" and "multi_byte (snd (ks ! i)) = None"
      then show "segment ?buf (nat (offset_at (builtin_fields ks) i))
          (nat (size_bytes (field_type (snd (ks ! i))))) =
        slot_image (snd (ks ! i)) True (content_of h (get_prop r (fst (ks ! i))))"
        by (rule fi)
    next
      fix i assume "i < length ks" and "multi_byte (snd (ks ! i)) = None"
      then show "segment ?buf (nat (offset_at (builtin_fields ks) i))
          (nat (size_bytes (field_type (snd (ks ! i))))) =
        slot_image (snd (ks ! i)) False (content_of h (get_prop r (fst (ks ! i))))"
        by (rule fi)
    qed
  qed
next
  have pos: "\<forall>(n, k) \<in> set ks. 0 < size_bytes (field_type k)" using ok by auto
  have nn: "\<forall>(n, k) \<in> set ks. 0 \<le> size_bytes (field_type k)" using ok by fastforce
  have vis: "\<forall>(n, k) \<in> set ks. n \<notin> hidden_names" using ok by auto
  have np: "''__proto__'' \<notin> fst ` set ks" using ok by force
  let ?le = "littleEndian S"
  let ?dv = "view_of src"
  let ?P = "parse_all ?le ?dv offset ks 0 h"
  let ?slot = "\<lambda>i w. segment (buffer ?dv)
      (byteOffset ?dv + nat (offset + offset_at (builtin_fields ks) i)) w"
  show "wf_source src \<and> 0 \<le> offset \<and> offset + size_total S \<le> int (byteLength (view_of src)) \<longrightarrow>
          (\<exists>inst h'. struct_from S h src offset = Inr (inst, h') \<and>
            (\<forall>i<length ks. \<forall>w. multi_byte (snd (ks ! i)) = Some w \<longrightarrow>
               content_of h' (get_prop (props inst) (fst (ks ! i))) =
                 decode_value (snd (ks ! i)) (littleEndian S)
                   (segment (buffer (view_of src))
                      (byteOffset (view_of src) + nat (offset + offset_at (builtin_fields ks) i)) w) \<and>
               ToUintN w (number_of (content_of h' (get_prop (props inst) (fst (ks ! i))))) =
                 le_to_nat
                   (if littleEndian S
                    then segment (buffer (view_of src))
                           (byteOffset (view_of src) + nat (offset + offset_at (builtin_fields ks) i)) w
                    else rev (segment (buffer (view_of src))
                           (byteOffset (view_of src) + nat (offset + offset_at (builtin_fields ks) i)) w))))"
  proof
    assume a: "wf_source src \<and> 0 \<le> offset \<and>
      offset + size_total S \<le> int (byteLength (view_of src))"
    then have wf: "wf_source src" and lo: "0 \<le> offset"
      and hi: "offset + size_total S \<le> int (byteLength ?dv)" by simp_all
    have frm: "struct_from S h src offset = Inr (\<lparr>props = fst ?P, dollar_struct = S\<rparr>, snd ?P)"
      using S dist nn vis wf lo hi np by (rule struct_from_builtin)
    have keys: "map fst (fst ?P) = map fst ks" by (rule parse_all_keys)
    have sz: "size_total S = sum_list (sizes (builtin_fields ks))"
      using S by (rule struct_size)
    have spos: "\<forall>s \<in> set (sizes (builtin_fields ks)). 0 < s"
      using pos by (auto simp: sizes_def builtin_fields_def)
    have field: "content_of (snd ?P) (get_prop (fst ?P) (fst (ks ! i))) =
          decode_value (snd (ks ! i)) ?le (?slot i w) \<and>
        ToUintN w (number_of (content_of (snd ?P) (get_prop (fst ?P) (fst (ks ! i))))) =
          le_to_nat (if ?le then ?slot i w else rev (?slot i w))"
      if i: "i < length ks" and m: "multi_byte (snd (ks ! i)) = Some w" for i w
    proof -
      have li: "i < length (fst ?P)" using i keys by (metis length_map)
      have "fst (fst ?P ! i) = fst (ks ! i)"
        using i li keys by (metis nth_map)
      then have gp: "get_prop (fst ?P) (fst (ks ! i)) = snd (fst ?P ! i)"
        using get_prop_nth[of "fst ?P" i] keys dist li by simp
      have szw: "size_bytes (field_type (snd (ks ! i))) = int w"
        using m by (rule multi_byte_size)
      have c: "content_of (snd ?P) (snd (fst ?P ! i)) =
          decode_value (snd (ks ! i)) ?le (?slot i w)"
        using parse_all_content[OF i, of ?le ?dv offset 0 h] multi_byte_read_base[OF m, of ?dv] szw
        by simp
      have ib: "i < length (builtin_fields ks)" using i by simp
      have o0: "0 \<le> offset_at (builtin_fields ks) i"
        using spos ib by (rule offset_at_bounds)
      have "offset_at (builtin_fields ks) i + sizes (builtin_fields ks) ! i
          \<le> sum_list (sizes (builtin_fields ks))"
        using spos ib by (rule offset_at_bounds)
      moreover have "sizes (builtin_fields ks) ! i = size_bytes (field_type (snd (ks ! i)))"
        using i by (simp add: sizes_def builtin_fields_def case_prod_unfold)
      ultimately have o1: "offset_at (builtin_fields ks) i + int w \<le> size_total S"
        using szw sz by simp
      have "byteOffset ?dv + byteLength ?dv \<le> length (buffer ?dv)"
        using wf by (simp add: wf_source_def wf_view_def)
      then have "byteOffset ?dv + nat (offset + offset_at (builtin_fields ks) i) + w
          \<le> length (buffer ?dv)"
        using lo hi o0 o1 by linarith
      then have len: "length (?slot i w) = w"
        by (rule length_segment)
      show ?thesis
        using gp c multi_byte_decode[OF m len, of ?le] by simp
    qed
    show "\<exists>inst h'. struct_from S h src offset = Inr (inst, h') \<and>
            (\<forall>i<length ks. \<forall>w. multi_byte (snd (ks ! i)) = Some w \<longrightarrow>
               content_of h' (get_prop (props inst) (fst (ks ! i))) =
                 decode_value (snd (ks ! i)) (littleEndian S)
                   (segment (buffer (view_of src))
                      (byteOffset (view_of src) + nat (offset + offset_at (builtin_fields ks) i)) w) \<and>
               ToUintN w (number_of (content_of h' (get_prop (props inst) (fst (ks ! i))))) =
                 le_to_nat
                   (if littleEndian S
                    then segment (buffer (view_of src))
                           (byteOffset (view_of src) + nat (offset + offset_at (builtin_fields ks) i)) w
                    else rev (segment (buffer (view_of src))
                           (byteOffset (view_of src) + nat (offset + offset_at (builtin_fields ks) i)) w)))"
    proof (intro exI[of _ "\<lparr>props = fst ?P, dollar_struct = S\<rparr>"] exI[of _ "snd ?P"] conjI allI impI)
      show "struct_from S h src offset = Inr (\<lparr>props = fst ?P, dollar_struct = S\<rparr>, snd ?P)"
        by (rule frm)
    next
      fix i w assume i: "i < length ks" and m: "multi_byte (snd (ks ! i)) = Some w"
      show "content_of (snd ?P) (get_prop (props \<lparr>props = fst ?P, dollar_struct = S\<rparr>) (fst (ks ! i))) =
          decode_value (snd (ks ! i)) ?le (?slot i w)"
        unfolding Instance.select_convs by (rule conjunct1[OF field[OF i m]])
    next
      fix i w assume i: "i < length ks" and m: "multi_byte (snd (ks ! i)) = Some w"
      show "ToUintN w (number_of (content_of (snd ?P)
            (get_prop (props \<lparr>props = fst ?P, dollar_struct = S\<rparr>) (fst (ks ! i))))) =
          le_to_nat (if ?le then ?slot i w else rev (?slot i w))"
        unfolding Instance.select_convs by (rule conjunct2[OF field[OF i m]])
    qed
  qed
next
  show "\<forall>k h dv off v. multi_byte k = None \<longrightarrow>
      write_f (field_type k) h dv off v True = write_f (field_type k) h dv off v False \<and>
      parse (field_type k) h dv off True = parse (field_type k) h dv off False"
    by (simp add: flag_ignored_write flag_ignored_parse)
qed

lemma Header_conforms:
  "\<forall>(n, k) \<in> set Header_kinds. conforms Sample_heap k (get_prop Header_record n)"
  by (simp add: Header_kinds_def Header_record_def Sample_heap_def get_prop_def)

lemma Header_ok:
  "\<forall>(n, k) \<in> set Header_kinds.
     0 < size_bytes (field_type k) \<and> n \<notin> hidden_names \<and> n \<noteq> ''__proto__''"
  by (simp add: Header_kinds_def hidden_names_def)

lemma Header_enumeration: "enumeration_of Header_kinds = Header_kinds"
  by (rule enumeration_of_no_index) (simp add: Header_kinds_def is_array_index_def)

lemma Header_offsets:
  "offset_at (builtin_fields Header_kinds) (Suc 0) = 4"
  "offset_at (builtin_fields Header_kinds) 3 = 7"
  by (simp_all add: offset_at_def Header_sizes)

lemma Header_nth:
  "Header_kinds ! Suc 0 = (''version'', Uint16)" "Header_kinds ! 3 = (''count'', Uint32)"
  "length Header_kinds = 4"
  by (simp_all add: Header_kinds_def)

lemma Header_record_values:
  "get_prop Header_record ''version'' = Number 123"
  "get_prop Header_record ''count'' = Number 12345"
  by (simp_all add: Header_record_def get_prop_def)

lemma bytes_of_123: "nat_to_le 2 (ToUintN 2 123) = [0x7B, 0]"
  by code_simp

lemma Header_bytes_slots:
  "segment (buffer (view_of (ArrayBuffer Header_bytes)))
     (byteOffset (view_of (ArrayBuffer Header_bytes)) + 7) 4 = [0x39, 0x30, 0, 0]"
  "segment (buffer (view_of (ArrayBuffer Header_bytes)))
     (byteOffset (view_of (ArrayBuffer Header_bytes)) + 4) 2 = [0x7B, 0]"
  by (simp_all add: view_of_def segment_def Header_bytes_def)

lemma Header_bytes_numbers:
  "le_to_nat [0x39, 0x30, 0, 0] = 12345" "le_to_nat (rev [0x39, 0x30, 0, 0]) = 959447040"
  "le_to_nat [0x7B, 0] = 123" "le_to_nat (rev [0x7B, 0]) = 31488"
  by simp_all

text \<open>
  The header of the test, written and read with the flag set and without it. Little-endian,
  \<open>count\<close> = 12345 lies at offset 7 as 39 30 00 00 and \<open>version\<close> = 123 at offset 4 as
  7B 00; big-endian, as 00 00 30 39 and 00 7B. The 11 bytes of the test, read
  little-endian, give \<open>count\<close> = 12345 and \<open>version\<close> = 123; the same bytes read
  big-endian give 959447040 and 31488.
\<close>

theorem C8_endianness_witness:
  "struct ''Header'' (builtin_fields Header_kinds) (Some True) = Inr Header \<and>
   struct ''Header'' (builtin_fields Header_kinds) None = Inr HeaderBE \<and>
   distinct (map fst Header_kinds) \<and>
   enumeration_of Header_kinds = Header_kinds \<and>
   list_all (\<lambda>(n, k). 0 < size_bytes (field_type k) \<and> n \<notin> hidden_names \<and> n \<noteq> ''__proto__'')
     Header_kinds \<and>
   list_all (\<lambda>(n, k). conforms Sample_heap k (get_prop Header_record n)) Header_kinds \<and>
   Header_kinds ! 3 = (''count'', Uint32) \<and>
   get_prop Header_record ''count'' = Number 12345 \<and>
   littleEndian Header \<and> \<not> littleEndian HeaderBE \<and>
   (\<exists>buf. struct_to Header Sample_heap Header_record = Inr buf \<and>
          segment buf 7 4 = [0x39, 0x30, 0, 0] \<and> segment buf 4 2 = [0x7B, 0]) \<and>
   (\<exists>buf. struct_to HeaderBE Sample_heap Header_record = Inr buf \<and>
          segment buf 7 4 = [0, 0, 0x30, 0x39] \<and> segment buf 4 2 = [0, 0x7B]) \<and>
   wf_source (ArrayBuffer Header_bytes) \<and>
   0 + size_total Header \<le> int (byteLength (view_of (ArrayBuffer Header_bytes))) \<and>
   0 + size_total HeaderBE \<le> int (byteLength (view_of (ArrayBuffer Header_bytes))) \<and>
   (\<exists>inst h'. struct_from Header Sample_heap (ArrayBuffer Header_bytes) 0 = Inr (inst, h') \<and>
      ToUintN 4 (number_of (content_of h' (get_prop (props inst) ''count''))) = 12345 \<and>
      content_of h' (get_prop (props inst) ''version'') = CNumber 123) \<and>
   (\<exists>inst h'. struct_from HeaderBE Sample_heap (ArrayBuffer Header_bytes) 0 = Inr (inst, h') \<and>
      ToUintN 4 (number_of (content_of h' (get_prop (props inst) ''count''))) = 959447040 \<and>
      content_of h' (get_prop (props inst) ''version'') = CNumber 31488)"
proof -
  let ?src = "ArrayBuffer Header_bytes"
  have d: "distinct (map fst Header_kinds)" by (simp add: Header_kinds_def)
  have wf: "wf_source ?src" by (simp add: wf_source_def wf_view_def view_of_def)
  have bl: "int (byteLength (view_of ?src)) = 11" by (simp add: view_of_def Header_bytes_def)
  have s1: "size_total Header = 11"
    using struct_size[OF Header_struct] by (simp add: Header_sizes)
  have s2: "size_total HeaderBE = 11"
    using struct_size[OF HeaderBE_struct] by (simp add: Header_sizes)
  have in1: "wf_source ?src \<and> 0 \<le> (0::int) \<and>
      0 + size_total Header \<le> int (byteLength (view_of ?src))"
    using wf bl s1 by simp
  have in2: "wf_source ?src \<and> 0 \<le> (0::int) \<and>
      0 + size_total HeaderBE \<le> int (byteLength (view_of ?src))"
    using wf bl s2 by simp
  note c1 = C8_endianness[OF Header_struct d Header_enumeration Header_ok,
      where h = Sample_heap and r = Header_record and src = ?src and offset = 0]
  note c2 = C8_endianness[OF HeaderBE_struct d Header_enumeration Header_ok,
      where h = Sample_heap and r = Header_record and src = ?src and offset = 0]
  have le1: "littleEndian Header" using c1[THEN conjunct1] by simp
  have le2: "\<not> littleEndian HeaderBE" using c2[THEN conjunct1] by simp
  \<comment> \<open>writing\<close>
  from mp[OF c1[THEN conjunct2, THEN conjunct1] Header_conforms] obtain buf1 where
    to1: "struct_to Header Sample_heap Header_record = Inr buf1" and
    a1: "\<forall>i<length Header_kinds.
          (snd (Header_kinds ! i) = Uint32 \<and> littleEndian Header \<and>
           get_prop Header_record (fst (Header_kinds ! i)) = Number 12345 \<longrightarrow>
             segment buf1 (nat (offset_at (builtin_fields Header_kinds) i)) 4 = [0x39, 0x30, 0, 0]) \<and>
          (\<forall>w. multi_byte (snd (Header_kinds ! i)) = Some w \<longrightarrow>
             segment buf1 (nat (offset_at (builtin_fields Header_kinds) i)) w =
               (if littleEndian Header
                then nat_to_le w (ToUintN w (number_of (content_of Sample_heap
                       (get_prop Header_record (fst (Header_kinds ! i))))))
                else rev (nat_to_le w (ToUintN w (number_of (content_of Sample_heap
                       (get_prop Header_record (fst (Header_kinds ! i)))))))))"
    by blast
  from mp[OF c2[THEN conjunct2, THEN conjunct1] Header_conforms] obtain buf2 where
    to2: "struct_to HeaderBE Sample_heap Header_record = Inr buf2" and
    a2: "\<forall>i<length Header_kinds.
          (\<forall>w. multi_byte (snd (Header_kinds ! i)) = Some w \<longrightarrow>
             segment buf2 (nat (offset_at (builtin_fields Header_kinds) i)) w =
               (if littleEndian HeaderBE
                then nat_to_le w (ToUintN w (number_of (content_of Sample_heap
                       (get_prop Header_record (fst (Header_kinds ! i))))))
                else rev (nat_to_le w (ToUintN w (number_of (content_of Sample_heap
                       (get_prop Header_record (fst (Header_kinds ! i)))))))))"
    by blast
  have w13: "segment buf1 7 4 = [0x39, 0x30, 0, 0]"
    using a1[rule_format, of 3, THEN conjunct1] le1
    by (simp add: Header_nth Header_record_values Header_offsets)
  have w11: "segment buf1 4 2 = [0x7B, 0]"
    using a1[rule_format, of 1, THEN conjunct2, rule_format, of 2] le1
    by (simp add: Header_nth Header_record_values Header_offsets content_of_def number_of_def
        bytes_of_123)
  have w23: "segment buf2 7 4 = [0, 0, 0x30, 0x39]"
    using a2[rule_format, of 3 4] le2
    by (simp add: Header_nth Header_record_values Header_offsets content_of_def number_of_def
        bytes_of_12345)
  have w21: "segment buf2 4 2 = [0, 0x7B]"
    using a2[rule_format, of 1 2] le2
    by (simp add: Header_nth Header_record_values Header_offsets content_of_def number_of_def
        bytes_of_123)
  have r1: "\<exists>buf. struct_to Header Sample_heap Header_record = Inr buf \<and>
          segment buf 7 4 = [0x39, 0x30, 0, 0] \<and> segment buf 4 2 = [0x7B, 0]"
    using to1 w13 w11 by (intro exI[of _ buf1] conjI)
  have r2: "\<exists>buf. struct_to HeaderBE Sample_heap Header_record = Inr buf \<and>
          segment buf 7 4 = [0, 0, 0x30, 0x39] \<and> segment buf 4 2 = [0, 0x7B]"
    using to2 w23 w21 by (intro exI[of _ buf2] conjI)
  \<comment> \<open>reading\<close>
  from mp[OF c1[THEN conjunct2, THEN conjunct2, THEN conjunct1] in1] obtain i1 h1 where
    f1: "struct_from Header Sample_heap ?src 0 = Inr (i1, h1)" and
    b1: "\<forall>i<length Header_kinds. \<forall>w. multi_byte (snd (Header_kinds ! i)) = Some w \<longrightarrow>
          content_of h1 (get_prop (props i1) (fst (Header_kinds ! i))) =
            decode_value (snd (Header_kinds ! i)) (littleEndian Header)
              (segment (buffer (view_of ?src))
                 (byteOffset (view_of ?src) + nat (0 + offset_at (builtin_fields Header_kinds) i)) w) \<and>
          ToUintN w (number_of (content_of h1 (get_prop (props i1) (fst (Header_kinds ! i))))) =
            le_to_nat
              (if littleEndian Header
               then segment (buffer (view_of ?src))
                      (byteOffset (view_of ?src) + nat (0 + offset_at (builtin_fields Header_kinds) i)) w
               else rev (segment (buffer (view_of ?src))
                      (byteOffset (view_of ?src) + nat (0 + offset_at (builtin_fields Header_kinds) i)) w))"
    by blast
  from mp[OF c2[THEN conjunct2, THEN conjunct2, THEN conjunct1] in2] obtain i2 h2 where
    f2: "struct_from HeaderBE Sample_heap ?src 0 = Inr (i2, h2)" and
    b2: "\<forall>i<length Header_kinds. \<forall>w. multi_byte (snd (Header_kinds ! i)) = Some w \<longrightarrow>
          content_of h2 (get_prop (props i2) (fst (Header_kinds ! i))) =
            decode_value (snd (Header_kinds ! i)) (littleEndian HeaderBE)
              (segment (buffer (view_of ?src))
                 (byteOffset (view_of ?src) + nat (0 + offset_at (builtin_fields Header_kinds) i)) w) \<and>
          ToUintN w (number_of (content_of h2 (get_prop (props i2) (fst (Header_kinds ! i))))) =
            le_to_nat
              (if littleEndian HeaderBE
               then segment (buffer (view_of ?src))
                      (byteOffset (view_of ?src) + nat (0 + offset_at (builtin_fields Header_kinds) i)) w
               else rev (segment (buffer (view_of ?src))
                      (byteOffset (view_of ?src) + nat (0 + offset_at (builtin_fields Header_kinds) i)) w))"
    by blast
  have g13: "ToUintN 4 (number_of (content_of h1 (get_prop (props i1) ''count''))) = 12345"
    using b1[rule_format, of 3 4, THEN conjunct2] le1
    by (simp add: Header_nth Header_offsets Header_bytes_slots Header_bytes_numbers
        del: le_to_nat.simps)
  have g11: "content_of h1 (get_prop (props i1) ''version'') = CNumber 123"
    using b1[rule_format, of 1 2, THEN conjunct1] le1
    by (simp add: Header_nth Header_offsets Header_bytes_slots endian_def)
  have g23: "ToUintN 4 (number_of (content_of h2 (get_prop (props i2) ''count''))) = 959447040"
    using b2[rule_format, of 3 4, THEN conjunct2] le2
    by (simp add: Header_nth Header_offsets Header_bytes_slots Header_bytes_numbers
        del: le_to_nat.simps rev.simps)
  have g21: "content_of h2 (get_prop (props i2) ''version'') = CNumber 31488"
    using b2[rule_format, of 1 2, THEN conjunct1] le2
    by (simp add: Header_nth Header_offsets Header_bytes_slots endian_def)
  have r3: "\<exists>inst h'. struct_from Header Sample_heap ?src 0 = Inr (inst, h') \<and>
      ToUintN 4 (number_of (content_of h' (get_prop (props inst) ''count''))) = 12345 \<and>
      content_of h' (get_prop (props inst) ''version'') = CNumber 123"
    using f1 g13 g11 by (intro exI[of _ i1] exI[of _ h1] conjI)
  have r4: "\<exists>inst h'. struct_from HeaderBE Sample_heap ?src 0 = Inr (inst, h') \<and>
      ToUintN 4 (number_of (content_of h' (get_prop (props inst) ''count''))) = 959447040 \<and>
      content_of h' (get_prop (props inst) ''version'') = CNumber 31488"
    using f2 g23 g21 by (intro exI[of _ i2] exI[of _ h2] conjI)
  have l1: "list_all (\<lambda>(n, k). 0 < size_bytes (field_type k) \<and> n \<notin> hidden_names \<and>
      n \<noteq> ''__proto__'') Header_kinds"
    using Header_ok by (simp add: list_all_iff)
  have l2: "list_all (\<lambda>(n, k). conforms Sample_heap k (get_prop Header_record n)) Header_kinds"
    using Header_conforms by (simp add: list_all_iff)
  have e1: "0 + size_total Header \<le> int (byteLength (view_of ?src))" using in1 by simp
  have e2: "0 + size_total HeaderBE \<le> int (byteLength (view_of ?src))" using in2 by simp
  from Header_struct HeaderBE_struct d Header_enumeration l1 l2 Header_nth(2) Header_record_values(2) le1 le2
    r1 r2 wf e1 e2 r3 r4
  show ?thesis
    by (simp only: simp_thms)
qed

section \<open>Null-terminated text (C6)\<close>

lemma Tag4_struct: "struct ''Tag4'' (builtin_fields [(''tag'', CString 4)]) None = Inr Tag4"
  unfolding Tag4_def by (rule struct_projr)

lemma takeWhile_terminated:
  "takeWhile (\<lambda>b. b \<noteq> (0::byte)) (xs @ [0]) = takeWhile (\<lambda>b. b \<noteq> 0) xs"
  by (induction xs) auto

lemma takeWhile_all: "0 \<notin> set xs \<Longrightarrow> takeWhile (\<lambda>b. b \<noteq> (0::byte)) xs = xs"
  by (induction xs) auto

lemma takeWhile_no_zero: "0 \<notin> set (takeWhile (\<lambda>b. b \<noteq> (0::byte)) xs)"
  by (induction xs) auto

lemma Tag4_to:
  "struct_to Tag4 [] [(''tag'', Str [0x61, 0, 0x62, 0x63, 0x64])] = Inr [0x61, 0, 0x62, 0]"
proof -
  have e: "TextEncoder_encode [0x61, 0, 0x62, 0x63, 0x64] = [0x61, 0, 0x62, 0x63, 0x64]"
    by (simp add: encode_ascii)
  have "struct_to Tag4 [] [(''tag'', Str [0x61, 0, 0x62, 0x63, 0x64])] =
      Inr (record_image (littleEndian Tag4) [] [(''tag'', Str [0x61, 0, 0x62, 0x63, 0x64])]
             [(''tag'', CString 4)])"
    by (rule struct_to_builtin[OF Tag4_struct]) (simp_all add: accepts_def get_prop_def)
  then show ?thesis
    by (simp add: slot_image_def get_prop_def content_of_def encoded_of_def e)
qed

lemma Tag4_from:
  "struct_from Tag4 [] (ArrayBuffer [0x61, 0, 0x62, 0]) 0 =
     Inr (\<lparr>props = [(''tag'', Str [0x61])], dollar_struct = Tag4\<rparr>, [])"
proof -
  let ?src = "ArrayBuffer [0x61, 0, 0x62, 0]"
  have d: "TextDecoder_decode [0x61] = [0x61]"
    by (simp add: decode_ascii)
  have sz: "size_total Tag4 = 4" using struct_size[OF Tag4_struct] by simp
  have "struct_from Tag4 [] ?src 0 =
      Inr (\<lparr>props = fst (parse_all (littleEndian Tag4) (view_of ?src) 0 [(''tag'', CString 4)] 0 []),
             dollar_struct = Tag4\<rparr>,
           snd (parse_all (littleEndian Tag4) (view_of ?src) 0 [(''tag'', CString 4)] 0 []))"
    using sz
    by (intro struct_from_builtin[OF Tag4_struct])
       (simp_all add: hidden_names_def wf_source_def wf_view_def view_of_def)
  then show ?thesis
    by (simp add: view_of_def parsed_def segment_def d)
qed

text \<open>
  Claim C6 says that, for a text longer than n-1 bytes, decoding the slot yields exactly
  the first n-1 encoded bytes as text. It does not when one of those bytes is zero: the
  text \<open>a\<close>, U+0000, \<open>bcd\<close> is written into \<open>cstring(4)\<close> as 61 00 62 00, its first three bytes
  and the terminator, and is read back as \<open>"a"\<close>, not as the three characters that the
  decoder makes of 61 00 62.
\<close>

theorem C6_counterexample:
  "4 - 1 < int (length (TextEncoder_encode [0x61, 0, 0x62, 0x63, 0x64])) \<and>
   take 3 (TextEncoder_encode [0x61, 0, 0x62, 0x63, 0x64]) = [0x61, 0, 0x62] \<and>
   struct_to Tag4 [] [(''tag'', Str [0x61, 0, 0x62, 0x63, 0x64])] = Inr [0x61, 0, 0x62, 0] \<and>
   struct_from Tag4 [] (ArrayBuffer [0x61, 0, 0x62, 0]) 0 =
     Inr (\<lparr>props = [(''tag'', Str [0x61])], dollar_struct = Tag4\<rparr>, []) \<and>
   TextDecoder_decode [0x61, 0, 0x62] = [0x61, 0, 0x62] \<and>
   [0x61] \<noteq> [0x61, 0, 0x62 :: 16 word]"
proof -
  have e: "TextEncoder_encode [0x61, 0, 0x62, 0x63, 0x64] = [0x61, 0, 0x62, 0x63, 0x64]"
    by (simp add: encode_ascii)
  have d: "TextDecoder_decode [0x61, 0, 0x62] = [0x61, 0, 0x62]"
    by (simp add: decode_ascii)
  from Tag4_to Tag4_from e d show ?thesis by simp
qed

text \<open>
  Claim C6, amended. For a null-terminated text field of size n > 0 and a slot inside the
  view:
  \<^item> writing a text whose encoding is longer than n-1 bytes succeeds and leaves in the
    slot exactly the first n-1 encoded bytes followed by a zero byte; reading that slot
    yields, as text, those bytes \<^emph>\<open>up to the first zero byte among them\<close>, hence exactly the
    first n-1 bytes when none of them is zero;
  \<^item> reading any slot succeeds and yields the decoding of the bytes before the first zero
    byte of the slot (all n bytes if there is none); the bytes decoded contain no zero,
    and neither does the decoded text.
\<close>

theorem C6_cstring:
  assumes "0 < n" and "wf_view dv" and "0 \<le> off" and "off + n \<le> int (byteLength dv)"
  shows "(n - 1 < int (length (TextEncoder_encode s)) \<longrightarrow>
            (\<exists>dv'. write_f (cstring n) h dv off (Str s) le = Inr dv' \<and>
               segment (buffer dv') (byteOffset dv + nat off) (nat n) =
                 take (nat (n - 1)) (TextEncoder_encode s) @ [0] \<and>
               parse (cstring n) h dv' off le =
                 Inr (Str (TextDecoder_decode
                        (takeWhile (\<lambda>b. b \<noteq> 0) (take (nat (n - 1)) (TextEncoder_encode s)))), h) \<and>
               (0 \<notin> set (take (nat (n - 1)) (TextEncoder_encode s)) \<longrightarrow>
                  parse (cstring n) h dv' off le =
                    Inr (Str (TextDecoder_decode (take (nat (n - 1)) (TextEncoder_encode s))), h)))) \<and>
         (\<exists>t. parse (cstring n) h dv off le = Inr (Str t, h) \<and>
              t = TextDecoder_decode
                    (takeWhile (\<lambda>b. b \<noteq> 0) (segment (buffer dv) (byteOffset dv + nat off) (nat n))) \<and>
              0 \<notin> set (takeWhile (\<lambda>b. b \<noteq> 0) (segment (buffer dv) (byteOffset dv + nat off) (nat n))) \<and>
              0 \<notin> set t)"
proof (intro conjI impI)
  assume long: "n - 1 < int (length (TextEncoder_encode s))"
  let ?enc = "TextEncoder_encode s"
  let ?W = "take (nat (n - 1)) ?enc @ [0]"
  have c: "content_of h (Str s) = CStr s" by (simp add: content_of_def)
  have W: "written (CString n) le (content_of h (Str s)) = ?W"
    by (simp add: c encoded_of_def)
  have len: "length (written (CString n) le (content_of h (Str s))) =
      nat (size_bytes (field_type (CString n)))"
    unfolding W using long assms(1) by simp
  have "\<exists>dv'. write_f (field_type (CString n)) h dv off (Str s) le = Inr dv' \<and>
           segment (buffer dv') (byteOffset dv + nat off) (nat (size_bytes (field_type (CString n)))) =
             written (CString n) le (content_of h (Str s)) \<and>
           parse (field_type (CString n)) h dv' off le =
             Inr (parsed (CString n) le h (written (CString n) le (content_of h (Str s))))"
    using assms(2) _ _ assms(3) _ _ len
  proof (rule write_then_parse)
    show "accepts h (CString n) (Str s)" by (simp add: accepts_def)
    show "0 < size_bytes (field_type (CString n))" using assms(1) by simp
    show "off + size_bytes (field_type (CString n)) \<le> int (byteLength dv)" using assms(4) by simp
    show "\<forall>m. CString n \<noteq> String m" by simp
  qed
  then obtain dv' where
    w: "write_f (cstring n) h dv off (Str s) le = Inr dv'" and
    sg: "segment (buffer dv') (byteOffset dv + nat off) (nat n) = ?W" and
    p: "parse (cstring n) h dv' off le = Inr (parsed (CString n) le h ?W)"
    unfolding W by auto
  have pv: "parsed (CString n) le h ?W =
      (Str (TextDecoder_decode (takeWhile (\<lambda>b. b \<noteq> 0) (take (nat (n - 1)) ?enc))), h)"
    by (simp add: parsed_def takeWhile_terminated)
  have p1: "parse (cstring n) h dv' off le =
      Inr (Str (TextDecoder_decode (takeWhile (\<lambda>b. b \<noteq> 0) (take (nat (n - 1)) ?enc))), h)"
    using p pv by simp
  have p2: "0 \<notin> set (take (nat (n - 1)) ?enc) \<longrightarrow>
      parse (cstring n) h dv' off le = Inr (Str (TextDecoder_decode (take (nat (n - 1)) ?enc)), h)"
    using p1 by (simp add: takeWhile_all)
  show "\<exists>dv'. write_f (cstring n) h dv off (Str s) le = Inr dv' \<and>
      segment (buffer dv') (byteOffset dv + nat off) (nat n) = ?W \<and>
      parse (cstring n) h dv' off le =
        Inr (Str (TextDecoder_decode (takeWhile (\<lambda>b. b \<noteq> 0) (take (nat (n - 1)) ?enc))), h) \<and>
      (0 \<notin> set (take (nat (n - 1)) ?enc) \<longrightarrow>
         parse (cstring n) h dv' off le = Inr (Str (TextDecoder_decode (take (nat (n - 1)) ?enc)), h))"
    using w sg p1 p2 by (intro exI[of _ dv'] conjI)
next
  let ?slot = "segment (buffer dv) (byteOffset dv + nat off) (nat n)"
  let ?bs = "takeWhile (\<lambda>b. b \<noteq> 0) ?slot"
  have "parse (field_type (CString n)) h dv off le =
      Inr (parsed (CString n) le h (segment (buffer dv) (read_base (CString n) dv + nat off)
                                      (nat (size_bytes (field_type (CString n))))))"
    using assms by (intro parse_builtin) auto
  then have p: "parse (cstring n) h dv off le = Inr (Str (TextDecoder_decode ?bs), h)"
    by (simp add: parsed_def)
  have z: "0 \<notin> set ?bs" by (rule takeWhile_no_zero)
  then have "0 \<notin> set (TextDecoder_decode ?bs)" by (rule decode_no_zero)
  with p z show "\<exists>t. parse (cstring n) h dv off le = Inr (Str t, h) \<and>
      t = TextDecoder_decode ?bs \<and> 0 \<notin> set ?bs \<and> 0 \<notin> set t"
    by simp
qed

text \<open>\<open>"abcde"\<close> in \<open>cstring(4)\<close>: the slot becomes 61 62 63 00 and reads back as
  \<open>"abc"\<close>.\<close>

theorem C6_cstring_witness:
  "(0::int) < 4 \<and>
   wf_view \<lparr>buffer = [0, 0, 0, 0], byteOffset = 0, byteLength = 4\<rparr> \<and>
   (0::int) + 4 \<le> int (byteLength \<lparr>buffer = [0, 0, 0, 0], byteOffset = 0, byteLength = 4\<rparr>) \<and>
   4 - 1 < int (length (TextEncoder_encode [0x61, 0x62, 0x63, 0x64, 0x65])) \<and>
   0 \<notin> set (take (nat (4 - 1)) (TextEncoder_encode [0x61, 0x62, 0x63, 0x64, 0x65])) \<and>
   (\<exists>dv'. write_f (cstring 4) [] \<lparr>buffer = [0, 0, 0, 0], byteOffset = 0, byteLength = 4\<rparr> 0
             (Str [0x61, 0x62, 0x63, 0x64, 0x65]) False = Inr dv' \<and>
          segment (buffer dv') 0 4 = [0x61, 0x62, 0x63, 0] \<and>
          parse (cstring 4) [] dv' 0 False = Inr (Str [0x61, 0x62, 0x63], []))"
proof -
  let ?dv = "\<lparr>buffer = [0, 0, 0, 0 :: byte], byteOffset = 0, byteLength = 4\<rparr>"
  let ?s = "[0x61, 0x62, 0x63, 0x64, 0x65] :: jsstring"
  have e: "TextEncoder_encode ?s = [0x61, 0x62, 0x63, 0x64, 0x65]"
    by (simp add: encode_ascii)
  have d: "TextDecoder_decode [0x61, 0x62, 0x63] = [0x61, 0x62, 0x63]"
    by (simp add: decode_ascii)
  have a1: "(0::int) < 4" by simp
  have a2: "wf_view ?dv" by (simp add: wf_view_def)
  have a3: "(0::int) \<le> 0" by simp
  have a4: "(0::int) + 4 \<le> int (byteLength ?dv)" by simp
  have long: "4 - 1 < int (length (TextEncoder_encode ?s))" by (simp add: e)
  have nz: "0 \<notin> set (take (nat (4 - 1)) (TextEncoder_encode ?s))" by (simp add: e)
  note c = C6_cstring[OF a1 a2 a3 a4, of ?s "[]" False, THEN conjunct1, THEN mp, OF long]
  then obtain dv' where
    w: "write_f (cstring 4) [] ?dv 0 (Str ?s) False = Inr dv'" and
    sg: "segment (buffer dv') (byteOffset ?dv + nat 0) (nat 4) =
          take (nat (4 - 1)) (TextEncoder_encode ?s) @ [0]" and
    p: "0 \<notin> set (take (nat (4 - 1)) (TextEncoder_encode ?s)) \<longrightarrow>
        parse (cstring 4) [] dv' 0 False =
          Inr (Str (TextDecoder_decode (take (nat (4 - 1)) (TextEncoder_encode ?s))), [])"
    by blast
  have sg': "segment (buffer dv') 0 4 = [0x61, 0x62, 0x63, 0]"
    using sg by (simp add: e)
  have p': "parse (cstring 4) [] dv' 0 False = Inr (Str [0x61, 0x62, 0x63], [])"
    using p nz by (simp add: e d)
  have "\<exists>dv'. write_f (cstring 4) [] ?dv 0 (Str ?s) False = Inr dv' \<and>
          segment (buffer dv') 0 4 = [0x61, 0x62, 0x63, 0] \<and>
          parse (cstring 4) [] dv' 0 False = Inr (Str [0x61, 0x62, 0x63], [])"
    using w sg' p' by (intro exI[of _ dv'] conjI)
  with a1 a2 a4 long nz show ?thesis
    by (simp only: simp_thms)
qed

section \<open>Cloning (C9)\<close>

lemma map_of_in_set:
  "distinct (map fst al) \<Longrightarrow> k \<in> set (map fst al) \<Longrightarrow> (k, get_prop al k) \<in> set al"
  by (auto simp: get_prop_def)

lemma array_store_other: "a \<noteq> b \<Longrightarrow> array_store h a i x ! b = h ! b"
  by (simp add: array_store_def)

lemma content_array_store:
  "(\<forall>b. v = U8Array b \<longrightarrow> b \<noteq> a) \<Longrightarrow> content_of (array_store h a i x) v = content_of h v"
  by (cases v) (simp_all add: content_of_def array_store_other)

text \<open>
  Claim C9. For a record whose keys are distinct and whose byte-array fields refer to live
  arrays (as the records that \<open>from\<close> and \<open>$clone\<close> return do), \<open>$clone\<close> returns a record
  with the same keys in the same order and the same struct back-reference. Every field of
  the clone has the content of the field of the original, and cloning leaves the original
  as it was. A field that is not a byte array holds the same value. A byte-array field of
  the clone refers to an array allocated by the clone (its address is beyond the old
  heap) with the same elements; storing into that array changes no field of the original
  and no other field of the clone, and storing into the original's array changes no field
  of the clone.
\<close>

theorem C9_clone:
  assumes dist: "distinct (map fst (props r))"
    and live: "\<forall>(k, v) \<in> set (props r). \<forall>a. v = U8Array a \<longrightarrow> a < length h"
    and cl: "dollar_clone r h = (c, h')"
  shows "map fst (props c) = map fst (props r) \<and>
         dollar_struct c = dollar_struct r \<and>
         (\<forall>k \<in> set (map fst (props r)).
            content_of h' (get_prop (props c) k) = content_of h (get_prop (props r) k) \<and>
            content_of h' (get_prop (props r) k) = content_of h (get_prop (props r) k) \<and>
            ((\<forall>a. get_prop (props r) k \<noteq> U8Array a) \<longrightarrow>
               get_prop (props c) k = get_prop (props r) k) \<and>
            (\<forall>a. get_prop (props r) k = U8Array a \<longrightarrow>
               (\<exists>a'. get_prop (props c) k = U8Array a' \<and> length h \<le> a' \<and> a' < length h' \<and>
                  (\<forall>k2 \<in> set (map fst (props r)). \<forall>i x.
                     content_of (array_store h' a' i x) (get_prop (props r) k2) =
                       content_of h' (get_prop (props r) k2) \<and>
                     (k2 \<noteq> k \<longrightarrow>
                        content_of (array_store h' a' i x) (get_prop (props c) k2) =
                          content_of h' (get_prop (props c) k2)) \<and>
                     content_of (array_store h' a i x) (get_prop (props c) k2) =
                       content_of h' (get_prop (props c) k2)))))"
proof -
  let ?ps = "props r"
  from cl have loop: "clone_loop ?ps h ?ps = (props c, h')" and ds: "dollar_struct c = dollar_struct r"
    by (auto simp: dollar_clone_def split: prod.splits)
  note spec = clone_loop_spec[OF dist subset_refl live loop]
  note s1 = spec[THEN conjunct1]
  note s2 = spec[THEN conjunct2, THEN conjunct1]
  note s4 = spec[THEN conjunct2, THEN conjunct2, THEN conjunct2, THEN conjunct1]
  note s5 = spec[THEN conjunct2, THEN conjunct2, THEN conjunct2, THEN conjunct2]
  have keys: "map fst (props c) = map fst ?ps" by (rule s1)
  obtain ext where ext: "h' = h @ ext" using s2 by blast
  have field: "((\<forall>a. get_prop ?ps k \<noteq> U8Array a) \<longrightarrow> map_of (props c) k = map_of ?ps k) \<and>
      (\<forall>a. get_prop ?ps k = U8Array a \<longrightarrow>
         (\<exists>a'. map_of (props c) k = Some (U8Array a') \<and> length h \<le> a' \<and> a' < length h' \<and>
               h' ! a' = h ! a))"
    if "(k, get_prop ?ps k) \<in> set ?ps" for k
    using bspec[OF s4 that] by simp
  have pair: "map_of (props c) k1 \<noteq> map_of (props c) k2"
    if "(k1, get_prop ?ps k1) \<in> set ?ps" "(k2, get_prop ?ps k2) \<in> set ?ps" "k1 \<noteq> k2"
      "\<exists>a. get_prop ?ps k1 = U8Array a" "\<exists>a. get_prop ?ps k2 = U8Array a" for k1 k2
    using bspec[OF bspec[OF s5 that(1), simplified] that(2)] that(3,4,5) by simp
  have mem: "(k, get_prop ?ps k) \<in> set ?ps" if "k \<in> set (map fst ?ps)" for k
    using dist that by (rule map_of_in_set)
  have orig: "map_of ?ps k = Some (get_prop ?ps k)" if "k \<in> set (map fst ?ps)" for k
    using mem[OF that] dist by simp
  have old_addr: "a < length h" if "k \<in> set (map fst ?ps)" "get_prop ?ps k = U8Array a" for k a
    using mem[OF that(1)] that(2) live by auto
  have scalar: "get_prop (props c) k = get_prop ?ps k"
    if "k \<in> set (map fst ?ps)" "\<forall>a. get_prop ?ps k \<noteq> U8Array a" for k
  proof -
    from field[OF mem[OF that(1)]] that(2) have "map_of (props c) k = map_of ?ps k" by blast
    then show ?thesis by (simp add: get_prop_def)
  qed
  have arr: "\<exists>a'. get_prop (props c) k = U8Array a' \<and> length h \<le> a' \<and> a' < length h' \<and>
      h' ! a' = h ! a"
    if "k \<in> set (map fst ?ps)" "get_prop ?ps k = U8Array a" for k a
  proof -
    from field[OF mem[OF that(1)]] that(2) obtain a' where
      "map_of (props c) k = Some (U8Array a')" "length h \<le> a'" "a' < length h'" "h' ! a' = h ! a"
      by blast
    then show ?thesis by (auto simp: get_prop_def)
  qed
  have same_r: "content_of h' (get_prop ?ps k) = content_of h (get_prop ?ps k)"
    if "k \<in> set (map fst ?ps)" for k
  proof (cases "get_prop ?ps k")
    case (U8Array a)
    with old_addr[OF that] ext show ?thesis by (simp add: content_of_def nth_append)
  qed (simp_all add: content_of_def)
  have same_c: "content_of h' (get_prop (props c) k) = content_of h (get_prop ?ps k)"
    if "k \<in> set (map fst ?ps)" for k
  proof (cases "\<exists>a. get_prop ?ps k = U8Array a")
    case True
    then obtain a where a: "get_prop ?ps k = U8Array a" by blast
    from arr[OF that a] a show ?thesis by (auto simp: content_of_def)
  next
    case False
    then have "get_prop (props c) k = get_prop ?ps k" using scalar[OF that] by blast
    with False show ?thesis by (cases "get_prop ?ps k") (simp_all add: content_of_def)
  qed
  have clone_addr: "length h \<le> b"
    if "k \<in> set (map fst ?ps)" "get_prop (props c) k = U8Array b" for k b
  proof (cases "\<exists>a. get_prop ?ps k = U8Array a")
    case True
    then obtain a where a: "get_prop ?ps k = U8Array a" by blast
    from arr[OF that(1) a] that(2) show ?thesis by auto
  next
    case False
    then have "get_prop (props c) k = get_prop ?ps k" using scalar[OF that(1)] by blast
    with False that(2) show ?thesis by simp
  qed
  have fresh_distinct: "get_prop (props c) k1 \<noteq> get_prop (props c) k2"
    if "k1 \<in> set (map fst ?ps)" "k2 \<in> set (map fst ?ps)" "k1 \<noteq> k2"
      "get_prop ?ps k1 = U8Array a1" "get_prop (props c) k2 = U8Array b" for k1 k2 a1 b
  proof (cases "\<exists>a. get_prop ?ps k2 = U8Array a")
    case True
    with pair[OF mem[OF that(1)] mem[OF that(2)] that(3)] that(4)
    have ne: "map_of (props c) k1 \<noteq> map_of (props c) k2" by blast
    from arr[OF that(1,4)] obtain a' where "get_prop (props c) k1 = U8Array a'" by blast
    moreover have "map_of (props c) k1 \<noteq> None" "map_of (props c) k2 \<noteq> None"
      using keys that(1,2) by (metis map_of_eq_None_iff set_map)+
    ultimately show ?thesis using ne by (auto simp: get_prop_def)
  next
    case False
    then have "get_prop (props c) k2 = get_prop ?ps k2" using scalar[OF that(2)] by blast
    with False that(5) show ?thesis by simp
  qed
  have iso: "\<exists>a'. get_prop (props c) k = U8Array a' \<and> length h \<le> a' \<and> a' < length h' \<and>
      (\<forall>k2 \<in> set (map fst ?ps). \<forall>i x.
         content_of (array_store h' a' i x) (get_prop ?ps k2) = content_of h' (get_prop ?ps k2) \<and>
         (k2 \<noteq> k \<longrightarrow>
            content_of (array_store h' a' i x) (get_prop (props c) k2) =
              content_of h' (get_prop (props c) k2)) \<and>
         content_of (array_store h' a i x) (get_prop (props c) k2) =
           content_of h' (get_prop (props c) k2))"
    if k: "k \<in> set (map fst ?ps)" and a: "get_prop ?ps k = U8Array a" for k a
  proof -
    from arr[OF k a] obtain a' where a': "get_prop (props c) k = U8Array a'"
      "length h \<le> a'" "a' < length h'" by blast
    have alt: "a < length h" using old_addr[OF k a] .
    have "content_of (array_store h' a' i x) (get_prop ?ps k2) = content_of h' (get_prop ?ps k2) \<and>
         (k2 \<noteq> k \<longrightarrow>
            content_of (array_store h' a' i x) (get_prop (props c) k2) =
              content_of h' (get_prop (props c) k2)) \<and>
         content_of (array_store h' a i x) (get_prop (props c) k2) =
           content_of h' (get_prop (props c) k2)"
      if k2: "k2 \<in> set (map fst ?ps)" for k2 i x
    proof (intro conjI impI)
      show "content_of (array_store h' a' i x) (get_prop ?ps k2) = content_of h' (get_prop ?ps k2)"
      proof (rule content_array_store, intro allI impI)
        fix b assume "get_prop ?ps k2 = U8Array b"
        then have "b < length h" using old_addr[OF k2] by blast
        with a'(2) show "b \<noteq> a'" by simp
      qed
    next
      assume ne: "k2 \<noteq> k"
      show "content_of (array_store h' a' i x) (get_prop (props c) k2) =
          content_of h' (get_prop (props c) k2)"
      proof (rule content_array_store, intro allI impI)
        fix b assume b: "get_prop (props c) k2 = U8Array b"
        from fresh_distinct[OF k k2 _ a b] ne a'(1) b show "b \<noteq> a'" by auto
      qed
    next
      show "content_of (array_store h' a i x) (get_prop (props c) k2) =
          content_of h' (get_prop (props c) k2)"
      proof (rule content_array_store, intro allI impI)
        fix b assume "get_prop (props c) k2 = U8Array b"
        then have "length h \<le> b" using clone_addr[OF k2] by blast
        with alt show "b \<noteq> a" by simp
      qed
    qed
    with a' show ?thesis by blast
  qed
  show ?thesis
  proof (intro conjI ballI allI impI)
    show "map fst (props c) = map fst (props r)" by (rule keys)
    show "dollar_struct c = dollar_struct r" by (rule ds)
  next
    fix k assume "k \<in> set (map fst (props r))"
    then show "content_of h' (get_prop (props c) k) = content_of h (get_prop (props r) k)"
      by (rule same_c)
  next
    fix k assume "k \<in> set (map fst (props r))"
    then show "content_of h' (get_prop (props r) k) = content_of h (get_prop (props r) k)"
      by (rule same_r)
  next
    fix k assume "k \<in> set (map fst (props r))" "\<forall>a. get_prop (props r) k \<noteq> U8Array a"
    then show "get_prop (props c) k = get_prop (props r) k"
      by (rule scalar)
  next
    fix k a assume "k \<in> set (map fst (props r))" "get_prop (props r) k = U8Array a"
    then show "\<exists>a'. get_prop (props c) k = U8Array a' \<and> length h \<le> a' \<and> a' < length h' \<and>
      (\<forall>k2 \<in> set (map fst ?ps). \<forall>i x.
         content_of (array_store h' a' i x) (get_prop ?ps k2) = content_of h' (get_prop ?ps k2) \<and>
         (k2 \<noteq> k \<longrightarrow>
            content_of (array_store h' a' i x) (get_prop (props c) k2) =
              content_of h' (get_prop (props c) k2)) \<and>
         content_of (array_store h' a i x) (get_prop (props c) k2) =
           content_of h' (get_prop (props c) k2))"
      by (rule iso)
  qed
qed


lemma Header_from:
  "struct_from Header [] (ArrayBuffer [0x41, 0x42, 0x43, 0x44, 0x7B, 0, 7, 0x39, 0x30, 0, 0]) 0 =
     Inr (\<lparr>props = Header_record, dollar_struct = Header\<rparr>, Sample_heap)"
proof -
  let ?src = "ArrayBuffer [0x41, 0x42, 0x43, 0x44, 0x7B, 0, 7, 0x39, 0x30, 0, 0]"
  have sz: "size_total Header = 11"
    using struct_size[OF Header_struct] by (simp add: Header_kinds_def)
  have le: "littleEndian Header"
    using struct_littleEndian[OF Header_struct] by simp
  have "struct_from Header [] ?src 0 =
      Inr (\<lparr>props = fst (parse_all (littleEndian Header) (view_of ?src) 0 Header_kinds 0 []),
             dollar_struct = Header\<rparr>,
           snd (parse_all (littleEndian Header) (view_of ?src) 0 Header_kinds 0 []))"
    using sz
    by (intro struct_from_builtin[OF Header_struct])
       (simp_all add: Header_kinds_def hidden_names_def wf_source_def wf_view_def view_of_def)
  then show ?thesis
    by (simp add: le Header_kinds_def Header_record_def Sample_heap_def view_of_def parsed_def
        segment_def endian_def)
qed

text \<open>
  The test \<open>instance methods work correctly\<close>: the header is parsed and cloned, and
  \<open>cloned.magic[0] = 88\<close> leaves \<open>header.magic\<close> at \<open>"ABCD"\<close>.
\<close>

theorem C9_clone_witness:
  "struct_from Header [] (ArrayBuffer [0x41, 0x42, 0x43, 0x44, 0x7B, 0, 7, 0x39, 0x30, 0, 0]) 0 =
     Inr (\<lparr>props = Header_record, dollar_struct = Header\<rparr>, Sample_heap) \<and>
   distinct (map fst (props \<lparr>props = Header_record, dollar_struct = Header\<rparr>)) \<and>
   list_all (\<lambda>(k, v). \<forall>a. v = U8Array a \<longrightarrow> a < length Sample_heap)
     (props \<lparr>props = Header_record, dollar_struct = Header\<rparr>) \<and>
   dollar_clone \<lparr>props = Header_record, dollar_struct = Header\<rparr> Sample_heap =
     (\<lparr>props = [(''magic'', U8Array 1), (''version'', Number 123), (''flags'', Number 7),
               (''count'', Number 12345)], dollar_struct = Header\<rparr>,
      [[0x41, 0x42, 0x43, 0x44], [0x41, 0x42, 0x43, 0x44]]) \<and>
   content_of (array_store [[0x41, 0x42, 0x43, 0x44], [0x41, 0x42, 0x43, 0x44]] 1 0 0x58)
     (get_prop Header_record ''magic'') = CBytes [0x41, 0x42, 0x43, 0x44] \<and>
   content_of (array_store [[0x41, 0x42, 0x43, 0x44], [0x41, 0x42, 0x43, 0x44]] 1 0 0x58)
     (U8Array 1) = CBytes [0x58, 0x42, 0x43, 0x44]"
proof -
  let ?r = "\<lparr>props = Header_record, dollar_struct = Header\<rparr>"
  let ?c = "\<lparr>props = [(''magic'', U8Array 1), (''version'', Number 123), (''flags'', Number 7),
               (''count'', Number 12345)], dollar_struct = Header\<rparr>"
  let ?h' = "[[0x41, 0x42, 0x43, 0x44], [0x41, 0x42, 0x43, 0x44 :: byte]]"
  have d: "distinct (map fst (props ?r))" by (simp add: Header_record_def)
  have lv: "\<forall>(k, v) \<in> set (props ?r). \<forall>a. v = U8Array a \<longrightarrow> a < length Sample_heap"
    by (simp add: Header_record_def Sample_heap_def)
  have cl: "dollar_clone ?r Sample_heap = (?c, ?h')"
    by (simp add: dollar_clone_def Header_record_def Sample_heap_def new_Uint8Array_def)
  note c = C9_clone[OF d lv cl]
  have m: "''magic'' \<in> set (map fst (props ?r))" by (simp add: Header_record_def)
  have g: "get_prop (props ?r) ''magic'' = U8Array 0"
    by (simp add: Header_record_def get_prop_def)
  have gc: "get_prop (props ?c) ''magic'' = U8Array 1" by (simp add: get_prop_def)
  note field = bspec[OF c[THEN conjunct2, THEN conjunct2] m]
  from field g obtain a' where a': "get_prop (props ?c) ''magic'' = U8Array a'"
    and iso: "\<forall>k2 \<in> set (map fst (props ?r)). \<forall>i x.
       content_of (array_store ?h' a' i x) (get_prop (props ?r) k2) =
         content_of ?h' (get_prop (props ?r) k2) \<and>
       (k2 \<noteq> ''magic'' \<longrightarrow>
          content_of (array_store ?h' a' i x) (get_prop (props ?c) k2) =
            content_of ?h' (get_prop (props ?c) k2)) \<and>
       content_of (array_store ?h' 0 i x) (get_prop (props ?c) k2) =
         content_of ?h' (get_prop (props ?c) k2)"
    by blast
  from a' gc have a1: "a' = 1" by simp
  from bspec[OF iso m] a1
  have "content_of (array_store ?h' 1 0 0x58) (get_prop (props ?r) ''magic'') =
      content_of ?h' (get_prop (props ?r) ''magic'')"
    by blast
  then have r1: "content_of (array_store ?h' 1 0 0x58) (get_prop Header_record ''magic'') =
      CBytes [0x41, 0x42, 0x43, 0x44]"
    using g by (simp add: content_of_def)
  have r2: "content_of (array_store ?h' 1 0 0x58) (U8Array 1) = CBytes [0x58, 0x42, 0x43, 0x44]"
    by (simp add: content_of_def array_store_def)
  have l: "list_all (\<lambda>(k, v). \<forall>a. v = U8Array a \<longrightarrow> a < length Sample_heap) (props ?r)"
    using lv by (simp add: list_all_iff)
  from Header_from d l cl r1 r2 show ?thesis
    by (simp only: simp_thms)
qed

end
